theory Spec2Isabelle
  imports Complex_Main "HOL-Library.Word"
begin

section \<open>The platform: strings, numbers and values of the JavaScript engine\<close>

text \<open>
  \<^verbatim>\<open>src/utils/config.ts\<close> reads a text, hands it to \<^verbatim>\<open>JSON.parse\<close> and works on whatever
  value comes back: the annotation \<^verbatim>\<open>fileParsed: Config\<close> is not checked at run time. The
  values are therefore modelled as the engine has them, dynamically typed, and the
  operations the source applies to them (property reads, object spread, \<^verbatim>\<open>for ... in\<close>,
  \<^verbatim>\<open>!x\<close>, \<^verbatim>\<open>==\<close>, template literals) follow ECMA-262.
\<close>

subsection \<open>Strings\<close>

text \<open>A JavaScript string is a sequence of 16-bit code units.\<close>

type_synonym codeunit = "16 word"
type_synonym jsstring = "codeunit list"

definition js :: "string \<Rightarrow> jsstring" where
  "js s = map of_char s"

definition is_digit :: "codeunit \<Rightarrow> bool" where
  "is_digit c \<longleftrightarrow> 0x30 \<le> c \<and> c \<le> 0x39"

definition digit_value :: "codeunit \<Rightarrow> nat" where
  "digit_value c = unat c - 48"

definition digit_char :: "nat \<Rightarrow> codeunit" where
  "digit_char d = of_nat (48 + d)"

text \<open>Decimal digits, most significant first, and the integer they write.\<close>

definition int_of_digits :: "nat list \<Rightarrow> int" where
  "int_of_digits ds = foldl (\<lambda>a d. 10 * a + int d) 0 ds"

function digits_of_int :: "int \<Rightarrow> nat list" where
  "digits_of_int n = (if n < 10 then [nat n] else digits_of_int (n div 10) @ [nat (n mod 10)])"
  by pat_completeness auto
termination
  by (relation "measure nat") auto

declare digits_of_int.simps [simp del]

subsection \<open>Numbers\<close>

text \<open>
  A number is a double: finite or an infinity (\<^verbatim>\<open>JSON.parse\<close> gives no \<^verbatim>\<open>NaN\<close>).
  \<open>Finite neg m e\<close> is the double of sign \<open>neg\<close> and magnitude \<open>m \<times> 2\<^sup>e\<close>, written as IEEE 754
  has it: \<open>2\<^sup>5\<^sup>2 \<le> m < 2\<^sup>5\<^sup>3\<close> and \<open>-1074 \<le> e \<le> 971\<close> for a normal number,
  \<open>0 < m < 2\<^sup>5\<^sup>2\<close> and \<open>e = -1074\<close> for a subnormal one, and \<open>m = 0\<close>, \<open>e = 0\<close> for zero, which
  keeps its sign.
\<close>

datatype number = Finite bool int int | Infinity bool

text \<open>The number of binary digits of a positive integer.\<close>

function bit_length :: "int \<Rightarrow> int" where
  "bit_length n = (if n \<le> 0 then 0 else 1 + bit_length (n div 2))"
  by pat_completeness auto
termination
  by (relation "measure nat") auto

declare bit_length.simps [simp del]

text \<open>
  The double nearest to the positive fraction \<open>a / b\<close>, ties to the even mantissa
  (ECMA-262, 6.1.6.1: the Number value for a real). \<open>below_pow2 a b k\<close> is
  \<open>a / b < 2\<^sup>k\<close>; \<open>ulp_exponent a b\<close> is the exponent \<open>p - 52\<close> of the last of 53 binary digits,
  for \<open>2\<^sup>p \<le> a / b < 2\<^sup>p\<^sup>+\<^sup>1\<close>, and no exponent is below \<open>-1074\<close>. A mantissa rounded up to
  \<open>2\<^sup>5\<^sup>3\<close> moves to the next exponent, and what lies beyond the largest double is an
  infinity.
\<close>

definition below_pow2 :: "int \<Rightarrow> int \<Rightarrow> int \<Rightarrow> bool" where
  "below_pow2 a b k \<longleftrightarrow> a * 2 ^ nat (- k) < b * 2 ^ nat k"

definition ulp_exponent :: "int \<Rightarrow> int \<Rightarrow> int" where
  "ulp_exponent a b =
     (let c = bit_length a - bit_length b in if below_pow2 a b c then c - 53 else c - 52)"

definition round_half_even :: "int \<Rightarrow> int \<Rightarrow> int" where
  "round_half_even n d =
     (let f = n div d; r = n mod d
      in if 2 * r < d then f else if d < 2 * r then f + 1 else if even f then f else f + 1)"

definition pack :: "bool \<Rightarrow> int \<Rightarrow> int \<Rightarrow> number" where
  "pack neg m e =
     (if 971 < e then Infinity neg
      else if m = 0 then Finite neg 0 0
      else if m = 2 ^ 53 then (if e = 971 then Infinity neg else Finite neg (2 ^ 52) (e + 1))
      else Finite neg m e)"

definition round_double :: "bool \<Rightarrow> int \<Rightarrow> int \<Rightarrow> number" where
  "round_double neg a b =
     (if a = 0 then Finite neg 0 0
      else
        (let e = max (ulp_exponent a b) (- 1074)
         in pack neg (round_half_even (a * 2 ^ nat (- e)) (b * 2 ^ nat e)) e))"

definition strip_zeros :: "nat list \<Rightarrow> nat list" where
  "strip_zeros ds = rev (dropWhile (\<lambda>d. d = 0) (rev (dropWhile (\<lambda>d. d = 0) ds)))"

text \<open>
  The value of the literal with sign \<open>neg\<close>, integer digits \<open>ip\<close>, fraction digits \<open>fp\<close>
  and exponent \<open>ex\<close>: the double nearest to \<open>ip.fp \<times> 10\<^sup>e\<^sup>x\<close>.
\<close>

definition number_of_literal :: "bool \<Rightarrow> nat list \<Rightarrow> nat list \<Rightarrow> int \<Rightarrow> number" where
  "number_of_literal neg ip fp ex =
     (let E = ex - int (length fp)
      in round_double neg (int_of_digits (ip @ fp) * 10 ^ nat E) (10 ^ nat (- E)))"

text \<open>
  \<^verbatim>\<open>Number::toString\<close> (ECMA-262, 6.1.6.1.20), radix 10, step 5: the digits \<open>ds\<close> and the
  position \<open>n\<close> of the point, with \<open>0.ds \<times> 10\<^sup>n\<close> a decimal that reads as the double
  \<open>m \<times> 2\<^sup>e\<close>, as few digits as possible, and of the decimals with that many digits the
  one nearest to the double (the even one of two equally near). \<open>decimal_digits s t\<close>
  are the digits and the position of \<open>s \<times> 10\<^sup>t\<close>. \<open>nearest_at m e t\<close> looks at the two
  multiples of \<open>10\<^sup>t\<close> next to the double; \<open>shortest_from\<close> goes from the larger \<open>t\<close>, where
  the digits are fewer, to the smaller ones, down to the \<open>t\<close> at which the double is
  itself a multiple of \<open>10\<^sup>t\<close>.
\<close>

definition decimal_digits :: "int \<Rightarrow> int \<Rightarrow> nat list \<times> int" where
  "decimal_digits s t = (strip_zeros (digits_of_int s), t + int (length (digits_of_int s)))"

definition reads_as :: "int \<Rightarrow> int \<Rightarrow> int \<Rightarrow> int \<Rightarrow> bool" where
  "reads_as m e s t \<longleftrightarrow>
     0 < s \<and>
     (case decimal_digits s t of
        (ds, n) \<Rightarrow> number_of_literal False ds [] (n - int (length ds)) = Finite False m e)"

definition nearest_at :: "int \<Rightarrow> int \<Rightarrow> int \<Rightarrow> int option" where
  "nearest_at m e t =
     (let num = m * 2 ^ nat e * 10 ^ nat (- t); den = 2 ^ nat (- e) * 10 ^ nat t;
          lo = num div den; r = num mod den
      in if reads_as m e lo t \<and> reads_as m e (lo + 1) t then
           Some (if 2 * r < den \<or> (2 * r = den \<and> even lo) then lo else lo + 1)
         else if reads_as m e lo t then Some lo
         else if reads_as m e (lo + 1) t then Some (lo + 1)
         else None)"

function shortest_from :: "int \<Rightarrow> int \<Rightarrow> int \<Rightarrow> (nat list \<times> int) option" where
  "shortest_from m e t =
     (if t < min e 0 then None
      else
        (case nearest_at m e t of
           Some s \<Rightarrow> Some (decimal_digits s t)
         | None \<Rightarrow> shortest_from m e (t - 1)))"
  by pat_completeness auto
termination
  by (relation "measure (\<lambda>(m, e, t). nat (t - min e 0 + 1))") auto

declare shortest_from.simps [simp del]

definition shortest_digits :: "int \<Rightarrow> int \<Rightarrow> nat list \<times> int" where
  "shortest_digits m e =
     (case shortest_from m e (int (length (digits_of_int (m * 2 ^ nat e div 2 ^ nat (- e))))) of
        Some p \<Rightarrow> p
      | None \<Rightarrow> ([], 0))"

text \<open>\<^verbatim>\<open>Number::toString\<close>, steps 6 to 10: the layout of the digits.\<close>

definition digits_string :: "nat list \<Rightarrow> jsstring" where
  "digits_string ds = map digit_char ds"

definition exponent_string :: "int \<Rightarrow> jsstring" where
  "exponent_string e =
     (if 0 \<le> e then 0x2B # digits_string (digits_of_int e)
      else 0x2D # digits_string (digits_of_int (- e)))"

definition magnitude_string :: "nat list \<Rightarrow> int \<Rightarrow> jsstring" where
  "magnitude_string ds n =
     (let k = int (length ds)
      in if k \<le> n \<and> n \<le> 21 then digits_string ds @ replicate (nat (n - k)) 0x30
         else if 0 < n \<and> n \<le> 21 then
           digits_string (take (nat n) ds) @ 0x2E # digits_string (drop (nat n) ds)
         else if - 6 < n \<and> n \<le> 0 then
           0x30 # 0x2E # replicate (nat (- n)) 0x30 @ digits_string ds
         else if k = 1 then digits_string ds @ 0x65 # exponent_string (n - 1)
         else digits_string (take 1 ds) @ 0x2E # digits_string (drop 1 ds)
                @ 0x65 # exponent_string (n - 1))"

fun Number_toString :: "number \<Rightarrow> jsstring" where
  "Number_toString (Infinity neg) = (if neg then js ''-Infinity'' else js ''Infinity'')"
| "Number_toString (Finite neg m e) =
     (if m = 0 then js ''0''
      else
        (case shortest_digits m e of
           (ds, n) \<Rightarrow> if neg then 0x2D # magnitude_string ds n else magnitude_string ds n))"

subsection \<open>Values\<close>

datatype jsvalue =
    JUndefined
  | JNull
  | JBool bool
  | JNum number
  | JStr jsstring
  | JArr "jsvalue list"
  | JObj "(jsstring \<times> jsvalue) list"

datatype exn = SyntaxError | TypeError

text \<open>
  An object lists its own properties in the order \<^verbatim>\<open>OrdinaryOwnPropertyKeys\<close> gives them:
  the array indices (canonical numeric strings below \<open>2\<^sup>3\<^sup>2 - 1\<close>) in ascending order, then
  the other keys in the order of their creation.
\<close>

definition array_index :: "jsstring \<Rightarrow> int option" where
  "array_index k =
     (if k \<noteq> [] \<and> list_all is_digit k \<and> (hd k \<noteq> 0x30 \<or> length k = 1) then
        (if int_of_digits (map digit_value k) < 4294967295
         then Some (int_of_digits (map digit_value k)) else None)
      else None)"

definition index_key :: "nat \<Rightarrow> jsstring" where
  "index_key i = digits_string (digits_of_int (int i))"

definition comes_before :: "jsstring \<Rightarrow> jsstring \<Rightarrow> bool" where
  "comes_before k k' =
     (case array_index k of
        None \<Rightarrow> False
      | Some i \<Rightarrow> (case array_index k' of None \<Rightarrow> True | Some j \<Rightarrow> i < j))"

fun insert_new :: "(jsstring \<times> jsvalue) list \<Rightarrow> jsstring \<Rightarrow> jsvalue \<Rightarrow> (jsstring \<times> jsvalue) list" where
  "insert_new [] k v = [(k, v)]"
| "insert_new ((k', v') # ps) k v =
     (if comes_before k k' then (k, v) # (k', v') # ps else (k', v') # insert_new ps k v)"

text \<open>\<^verbatim>\<open>CreateDataProperty\<close> on an ordinary object: an existing key keeps its place.\<close>

definition obj_set :: "(jsstring \<times> jsvalue) list \<Rightarrow> jsstring \<Rightarrow> jsvalue \<Rightarrow> (jsstring \<times> jsvalue) list" where
  "obj_set ps k v =
     (if k \<in> fst ` set ps then map (\<lambda>(k', v'). if k' = k then (k', v) else (k', v')) ps
      else insert_new ps k v)"

text \<open>
  The own enumerable string-keyed properties of a value taken as an object: those of an
  object, the elements of an array and the code units of a string under their indices
  (\<^verbatim>\<open>length\<close> is not enumerable), and none for the other primitives.
\<close>

fun indexed :: "nat \<Rightarrow> jsvalue list \<Rightarrow> (jsstring \<times> jsvalue) list" where
  "indexed i [] = []"
| "indexed i (v # vs) = (index_key i, v) # indexed (Suc i) vs"

fun own_props :: "jsvalue \<Rightarrow> (jsstring \<times> jsvalue) list" where
  "own_props (JObj ps) = ps"
| "own_props (JArr vs) = indexed 0 vs"
| "own_props (JStr s) = indexed 0 (map (\<lambda>c. JStr [c]) s)"
| "own_props _ = []"

text \<open>
  \<^verbatim>\<open>v[k]\<close> and \<^verbatim>\<open>v.k\<close>. Reading a property of \<^verbatim>\<open>null\<close> or \<^verbatim>\<open>undefined\<close> throws a
  \<^verbatim>\<open>TypeError\<close>. Inherited properties are left out: the source reads only its own field
  names and the keys a \<^verbatim>\<open>for ... in\<close> gave it, and no prototype of a parsed value has
  a property of one of these names.
\<close>

fun Get :: "jsvalue \<Rightarrow> jsstring \<Rightarrow> exn + jsvalue" where
  "Get JUndefined k = Inl TypeError"
| "Get JNull k = Inl TypeError"
| "Get v k = Inr (case map_of (own_props v) k of None \<Rightarrow> JUndefined | Some x \<Rightarrow> x)"

text \<open>\<^verbatim>\<open>{...target, ...source}\<close>: \<^verbatim>\<open>CopyDataProperties\<close>, which accepts any source.\<close>

definition spread :: "(jsstring \<times> jsvalue) list \<Rightarrow> jsvalue \<Rightarrow> (jsstring \<times> jsvalue) list" where
  "spread target source = foldl (\<lambda>ps (k, v). obj_set ps k v) target (own_props source)"

fun ToBoolean :: "jsvalue \<Rightarrow> bool" where
  "ToBoolean JUndefined = False"
| "ToBoolean JNull = False"
| "ToBoolean (JBool b) = b"
| "ToBoolean (JNum (Finite neg m e)) = (m \<noteq> 0)"
| "ToBoolean (JNum (Infinity neg)) = True"
| "ToBoolean (JStr s) = (s \<noteq> [])"
| "ToBoolean (JArr vs) = True"
| "ToBoolean (JObj ps) = True"

subsection \<open>\<^verbatim>\<open>JSON.parse\<close>\<close>

text \<open>
  The grammar of ECMA-404, as \<^verbatim>\<open>JSON.parse\<close> reads it: a value between optional white
  space, and nothing after it. Each parser returns the value and the rest of the text.
  Members of an object are created in the order of the text; a repeated key keeps its
  place and takes the later value.
\<close>

definition is_ws :: "codeunit \<Rightarrow> bool" where
  "is_ws c \<longleftrightarrow> c = 0x20 \<or> c = 0x09 \<or> c = 0x0A \<or> c = 0x0D"

definition skip_ws :: "jsstring \<Rightarrow> jsstring" where
  "skip_ws t = dropWhile is_ws t"

definition hex_value :: "codeunit \<Rightarrow> nat option" where
  "hex_value c =
     (if 0x30 \<le> c \<and> c \<le> 0x39 then Some (unat c - 48)
      else if 0x41 \<le> c \<and> c \<le> 0x46 then Some (unat c - 55)
      else if 0x61 \<le> c \<and> c \<le> 0x66 then Some (unat c - 87)
      else None)"

definition hex4 :: "codeunit \<Rightarrow> codeunit \<Rightarrow> codeunit \<Rightarrow> codeunit \<Rightarrow> codeunit option" where
  "hex4 a b c d =
     (case (hex_value a, hex_value b, hex_value c, hex_value d) of
        (Some x, Some y, Some z, Some w) \<Rightarrow> Some (of_nat (((x * 16 + y) * 16 + z) * 16 + w))
      | _ \<Rightarrow> None)"

text \<open>The escapes \<^verbatim>\<open>\" \\ \/ \b \f \n \r \t\<close>.\<close>

definition escape_value :: "codeunit \<Rightarrow> codeunit option" where
  "escape_value e =
     (if e = 0x22 then Some 0x22
      else if e = 0x5C then Some 0x5C
      else if e = 0x2F then Some 0x2F
      else if e = 0x62 then Some 0x08
      else if e = 0x66 then Some 0x0C
      else if e = 0x6E then Some 0x0A
      else if e = 0x72 then Some 0x0D
      else if e = 0x74 then Some 0x09
      else None)"

text \<open>The characters of a string, after its opening quote, up to the closing one.\<close>

fun parse_string :: "jsstring \<Rightarrow> (jsstring \<times> jsstring) option" where
  "parse_string [] = None"
| "parse_string (c # cs) =
     (if c = 0x22 then Some ([], cs)
      else if c = 0x5C then
        (case cs of
           [] \<Rightarrow> None
         | e # cs' \<Rightarrow>
             if e = 0x75 then
               (case cs' of
                  h1 # h2 # h3 # h4 # cs'' \<Rightarrow>
                    (case hex4 h1 h2 h3 h4 of
                       None \<Rightarrow> None
                     | Some w \<Rightarrow> map_option (apfst ((#) w)) (parse_string cs''))
                | _ \<Rightarrow> None)
             else
               (case escape_value e of
                  None \<Rightarrow> None
                | Some w \<Rightarrow> map_option (apfst ((#) w)) (parse_string cs')))
      else if c < 0x20 then None
      else map_option (apfst ((#) c)) (parse_string cs))"

text \<open>
  A number: \<^verbatim>\<open>-? (0 | [1-9][0-9]*) (. [0-9]+)? ([eE] [+-]? [0-9]+)?\<close>.
\<close>

definition parse_int_part :: "jsstring \<Rightarrow> (nat list \<times> jsstring) option" where
  "parse_int_part t =
     (case t of
        [] \<Rightarrow> None
      | c # cs \<Rightarrow>
          if c = 0x30 then Some ([0], cs)
          else if is_digit c then
            Some (map digit_value (takeWhile is_digit t), dropWhile is_digit t)
          else None)"

definition parse_fraction :: "jsstring \<Rightarrow> (nat list \<times> jsstring) option" where
  "parse_fraction t =
     (case t of
        [] \<Rightarrow> Some ([], t)
      | c # cs \<Rightarrow>
          if c = 0x2E then
            (if takeWhile is_digit cs = [] then None
             else Some (map digit_value (takeWhile is_digit cs), dropWhile is_digit cs))
          else Some ([], t))"

definition parse_digits1 :: "jsstring \<Rightarrow> (int \<times> jsstring) option" where
  "parse_digits1 t =
     (if takeWhile is_digit t = [] then None
      else Some (int_of_digits (map digit_value (takeWhile is_digit t)), dropWhile is_digit t))"

definition parse_exponent :: "jsstring \<Rightarrow> (int \<times> jsstring) option" where
  "parse_exponent t =
     (case t of
        [] \<Rightarrow> Some (0, t)
      | c # cs \<Rightarrow>
          if c = 0x65 \<or> c = 0x45 then
            (case cs of
               [] \<Rightarrow> None
             | s # cs' \<Rightarrow>
                 if s = 0x2D then map_option (apfst uminus) (parse_digits1 cs')
                 else if s = 0x2B then parse_digits1 cs'
                 else parse_digits1 cs)
          else Some (0, t))"

definition parse_number :: "jsstring \<Rightarrow> (number \<times> jsstring) option" where
  "parse_number t =
     (let neg = (t \<noteq> [] \<and> hd t = 0x2D);
          t1 = (if neg then tl t else t)
      in case parse_int_part t1 of
           None \<Rightarrow> None
         | Some (ip, t2) \<Rightarrow>
             (case parse_fraction t2 of
                None \<Rightarrow> None
              | Some (fp, t3) \<Rightarrow>
                  (case parse_exponent t3 of
                     None \<Rightarrow> None
                   | Some (ex, t4) \<Rightarrow> Some (number_of_literal neg ip fp ex, t4))))"

definition parse_literal :: "jsstring \<Rightarrow> (jsvalue \<times> jsstring) option" where
  "parse_literal t =
     (if take 4 t = js ''true'' then Some (JBool True, drop 4 t)
      else if take 5 t = js ''false'' then Some (JBool False, drop 5 t)
      else if take 4 t = js ''null'' then Some (JNull, drop 4 t)
      else None)"

lemma parse_string_length: "parse_string t = Some (s, r) \<Longrightarrow> length r < length t"
proof (induction t arbitrary: s r rule: parse_string.induct)
  case 1
  then show ?case by simp
next
  case (2 c cs)
  then show ?case
    by (fastforce split: if_splits list.splits option.splits)
qed

lemma skip_ws_length: "length (skip_ws t) \<le> length t"
  by (simp add: skip_ws_def length_dropWhile_le)

lemma skip_ws_Cons_length: "skip_ws t = c # cs \<Longrightarrow> length cs < length t"
  using skip_ws_length [of t] by simp

function parse_value :: "jsstring \<Rightarrow> (jsvalue \<times> jsstring) option"
  and parse_elements :: "jsvalue list \<Rightarrow> jsstring \<Rightarrow> (jsvalue \<times> jsstring) option"
  and parse_members :: "(jsstring \<times> jsvalue) list \<Rightarrow> jsstring \<Rightarrow> (jsvalue \<times> jsstring) option"
where
  "parse_value t =
     (case skip_ws t of
        [] \<Rightarrow> None
      | c # cs \<Rightarrow>
          if c = 0x7B then
            (case skip_ws cs of
               [] \<Rightarrow> None
             | d # ds \<Rightarrow> if d = 0x7D then Some (JObj [], ds) else parse_members [] (d # ds))
          else if c = 0x5B then
            (case skip_ws cs of
               [] \<Rightarrow> None
             | d # ds \<Rightarrow> if d = 0x5D then Some (JArr [], ds) else parse_elements [] (d # ds))
          else if c = 0x22 then map_option (apfst JStr) (parse_string cs)
          else if c = 0x2D \<or> is_digit c then map_option (apfst JNum) (parse_number (c # cs))
          else parse_literal (c # cs))"
| "parse_elements acc t =
     (case parse_value t of
        None \<Rightarrow> None
      | Some (v, r) \<Rightarrow>
          if length r < length t then
            (case skip_ws r of
               [] \<Rightarrow> None
             | c # cs \<Rightarrow>
                 if c = 0x2C then parse_elements (acc @ [v]) cs
                 else if c = 0x5D then Some (JArr (acc @ [v]), cs)
                 else None)
          else None)"
| "parse_members acc t =
     (case skip_ws t of
        [] \<Rightarrow> None
      | q # cs \<Rightarrow>
          if q \<noteq> 0x22 then None
          else
            (case parse_string cs of
               None \<Rightarrow> None
             | Some (k, r1) \<Rightarrow>
                 (case skip_ws r1 of
                    [] \<Rightarrow> None
                  | c1 # r2 \<Rightarrow>
                      if c1 \<noteq> 0x3A then None
                      else
                        (case parse_value r2 of
                           None \<Rightarrow> None
                         | Some (v, r3) \<Rightarrow>
                             if length r3 < length r2 then
                               (case skip_ws r3 of
                                  [] \<Rightarrow> None
                                | c2 # r4 \<Rightarrow>
                                    if c2 = 0x2C then parse_members (obj_set acc k v) r4
                                    else if c2 = 0x7D then Some (JObj (obj_set acc k v), r4)
                                    else None)
                             else None))))"
  by pat_completeness auto
termination
proof (relation "measure (\<lambda>x. case x of
           Inl t \<Rightarrow> 2 * length t
         | Inr (Inl (acc, t)) \<Rightarrow> 2 * length t + 1
         | Inr (Inr (acc, t)) \<Rightarrow> 2 * length t + 1)", goal_cases)
  case 1
  then show ?case by simp
next
  case (2 t c cs d ds)
  then show ?case
    using skip_ws_Cons_length [of t c cs] skip_ws_Cons_length [of cs d ds] by simp
next
  case (3 t c cs d ds)
  then show ?case
    using skip_ws_Cons_length [of t c cs] skip_ws_Cons_length [of cs d ds] by simp
next
  case (4 acc t)
  then show ?case by simp
next
  case (5 acc t x v r c cs)
  then show ?case
    using skip_ws_Cons_length [of r c cs] by simp
next
  case (6 acc t q cs x k r1 c1 r2)
  then show ?case
    using skip_ws_Cons_length [of t q cs] parse_string_length [of cs k r1]
      skip_ws_Cons_length [of r1 c1 r2] by simp
next
  case (7 acc t q cs x k r1 c1 r2 y v r3 c2 r4)
  then show ?case
    using skip_ws_Cons_length [of t q cs] parse_string_length [of cs k r1]
      skip_ws_Cons_length [of r1 c1 r2] skip_ws_Cons_length [of r3 c2 r4] by simp
qed

declare parse_value.simps [simp del] parse_elements.simps [simp del]
  parse_members.simps [simp del]

definition JSON_parse :: "jsstring \<Rightarrow> exn + jsvalue" where
  "JSON_parse text =
     (case parse_value text of
        None \<Rightarrow> Inl SyntaxError
      | Some (v, r) \<Rightarrow> if skip_ws r = [] then Inr v else Inl SyntaxError)"

subsection \<open>Conversion to strings, and \<^verbatim>\<open>==\<close>\<close>

text \<open>
  \<^verbatim>\<open>ToString\<close>, which a template literal applies to its substitutions. An array is joined
  with commas (\<^verbatim>\<open>null\<close> and \<^verbatim>\<open>undefined\<close> elements give the empty string); an object
  gives \<^verbatim>\<open>[object Object]\<close>, unless it has a property \<^verbatim>\<open>toString\<close> of its own: a parsed
  value is never callable, so the conversion finds no method that returns a primitive
  and throws a \<^verbatim>\<open>TypeError\<close>.
\<close>

fun ToString :: "jsvalue \<Rightarrow> exn + jsstring"
  and Array_join :: "jsvalue list \<Rightarrow> exn + jsstring"
where
  "ToString JUndefined = Inr (js ''undefined'')"
| "ToString JNull = Inr (js ''null'')"
| "ToString (JBool b) = Inr (if b then js ''true'' else js ''false'')"
| "ToString (JNum n) = Inr (Number_toString n)"
| "ToString (JStr s) = Inr s"
| "ToString (JArr vs) = Array_join vs"
| "ToString (JObj ps) =
     (if js ''toString'' \<in> fst ` set ps then Inl TypeError else Inr (js ''[object Object]''))"
| "Array_join [] = Inr []"
| "Array_join (v # vs) =
     (case (if v = JUndefined \<or> v = JNull then Inr [] else ToString v) of
        Inl e \<Rightarrow> Inl e
      | Inr s \<Rightarrow>
          if vs = [] then Inr s
          else (case Array_join vs of Inl e \<Rightarrow> Inl e | Inr r \<Rightarrow> Inr (s @ 0x2C # r)))"

text \<open>
  \<^verbatim>\<open>v == s\<close> for a string \<open>s\<close> that is not a numeric literal, as \<^verbatim>\<open>'url'\<close>, \<^verbatim>\<open>'amo'\<close> and
  \<^verbatim>\<open>'github'\<close> are: a number or a boolean is compared with \<^verbatim>\<open>ToNumber(s)\<close>, which is
  \<^verbatim>\<open>NaN\<close>, and an array or an object is first converted to a primitive, which for a
  parsed value is the string \<^verbatim>\<open>ToString\<close> gives or the same \<^verbatim>\<open>TypeError\<close>.
\<close>

fun loose_equals :: "jsvalue \<Rightarrow> jsstring \<Rightarrow> exn + bool" where
  "loose_equals (JStr a) s = Inr (a = s)"
| "loose_equals (JArr vs) s = (case ToString (JArr vs) of Inl e \<Rightarrow> Inl e | Inr a \<Rightarrow> Inr (a = s))"
| "loose_equals (JObj ps) s = (case ToString (JObj ps) of Inl e \<Rightarrow> Inl e | Inr a \<Rightarrow> Inr (a = s))"
| "loose_equals _ s = Inr False"

subsection \<open>\<^verbatim>\<open>JSON.stringify(value, null, 2)\<close>\<close>

definition hex_digit :: "nat \<Rightarrow> codeunit" where
  "hex_digit n = (if n < 10 then of_nat (48 + n) else of_nat (87 + n))"

definition unicode_escape :: "codeunit \<Rightarrow> jsstring" where
  "unicode_escape c =
     [0x5C, 0x75, hex_digit (unat c div 4096), hex_digit (unat c div 256 mod 16),
      hex_digit (unat c div 16 mod 16), hex_digit (unat c mod 16)]"

definition is_leading_surrogate :: "codeunit \<Rightarrow> bool" where
  "is_leading_surrogate c \<longleftrightarrow> 0xD800 \<le> c \<and> c \<le> 0xDBFF"

definition is_trailing_surrogate :: "codeunit \<Rightarrow> bool" where
  "is_trailing_surrogate c \<longleftrightarrow> 0xDC00 \<le> c \<and> c \<le> 0xDFFF"

text \<open>
  The characters of \<^verbatim>\<open>QuoteJSONString\<close> between the quotes: the short escapes, \<^verbatim>\<open>\uXXXX\<close>
  for the other control characters and for a surrogate that is not part of a pair.
\<close>

fun quote_chars :: "jsstring \<Rightarrow> jsstring" where
  "quote_chars [] = []"
| "quote_chars (c # cs) =
     (if c = 0x08 then 0x5C # 0x62 # quote_chars cs
      else if c = 0x09 then 0x5C # 0x74 # quote_chars cs
      else if c = 0x0A then 0x5C # 0x6E # quote_chars cs
      else if c = 0x0C then 0x5C # 0x66 # quote_chars cs
      else if c = 0x0D then 0x5C # 0x72 # quote_chars cs
      else if c = 0x22 then 0x5C # 0x22 # quote_chars cs
      else if c = 0x5C then 0x5C # 0x5C # quote_chars cs
      else if c < 0x20 then unicode_escape c @ quote_chars cs
      else if is_leading_surrogate c then
        (case cs of
           [] \<Rightarrow> unicode_escape c
         | d # ds \<Rightarrow>
             if is_trailing_surrogate d then c # d # quote_chars ds
             else unicode_escape c @ quote_chars cs)
      else if is_trailing_surrogate c then unicode_escape c @ quote_chars cs
      else c # quote_chars cs)"

definition QuoteJSONString :: "jsstring \<Rightarrow> jsstring" where
  "QuoteJSONString s = 0x22 # quote_chars s @ [0x22]"

definition indentation :: "nat \<Rightarrow> jsstring" where
  "indentation level = replicate (2 * level) 0x20"

fun join_lines :: "nat \<Rightarrow> jsstring list \<Rightarrow> jsstring" where
  "join_lines level [] = []"
| "join_lines level [p] = p"
| "join_lines level (p # q # ps) = p @ 0x2C # 0x0A # indentation level @ join_lines level (q # ps)"

text \<open>
  \<^verbatim>\<open>SerializeJSONProperty\<close> at a nesting level; \<open>None\<close> is \<^verbatim>\<open>undefined\<close>, which an object
  leaves out and an array writes as \<^verbatim>\<open>null\<close>. A number that is not finite is written
  \<^verbatim>\<open>null\<close>. A property \<^verbatim>\<open>toJSON\<close> of a parsed value is not callable and is not used.
\<close>

fun serialize :: "nat \<Rightarrow> jsvalue \<Rightarrow> jsstring option"
  and serialize_elements :: "nat \<Rightarrow> jsvalue list \<Rightarrow> jsstring list"
  and serialize_members :: "nat \<Rightarrow> (jsstring \<times> jsvalue) list \<Rightarrow> jsstring list"
where
  "serialize level JUndefined = None"
| "serialize level JNull = Some (js ''null'')"
| "serialize level (JBool b) = Some (if b then js ''true'' else js ''false'')"
| "serialize level (JNum (Finite neg m e)) = Some (Number_toString (Finite neg m e))"
| "serialize level (JNum (Infinity neg)) = Some (js ''null'')"
| "serialize level (JStr s) = Some (QuoteJSONString s)"
| "serialize level (JArr vs) =
     Some (if vs = [] then js ''[]''
           else 0x5B # 0x0A # indentation (Suc level)
                  @ join_lines (Suc level) (serialize_elements (Suc level) vs)
                  @ 0x0A # indentation level @ [0x5D])"
| "serialize level (JObj ps) =
     Some (if serialize_members (Suc level) ps = [] then js ''{}''
           else 0x7B # 0x0A # indentation (Suc level)
                  @ join_lines (Suc level) (serialize_members (Suc level) ps)
                  @ 0x0A # indentation level @ [0x7D])"
| "serialize_elements level [] = []"
| "serialize_elements level (v # vs) =
     (case serialize level v of None \<Rightarrow> js ''null'' | Some str \<Rightarrow> str)
       # serialize_elements level vs"
| "serialize_members level [] = []"
| "serialize_members level ((k, v) # ps) =
     (case serialize level v of
        None \<Rightarrow> serialize_members level ps
      | Some str \<Rightarrow> (QuoteJSONString k @ 0x3A # 0x20 # str) # serialize_members level ps)"

definition JSON_stringify :: "jsvalue \<Rightarrow> jsstring option" where
  "JSON_stringify v = serialize 0 v"

section \<open>The module \<^verbatim>\<open>src/utils/config.ts\<close>\<close>

subsection \<open>State and effects\<close>

text \<open>
  The module's two variables (\<^verbatim>\<open>hasWarnedAboutConfig\<close>, \<^verbatim>\<open>mockConfig\<close>), the file at
  \<^verbatim>\<open>configPath\<close> (\<open>None\<close> when there is none) and the effects so far, in order.
  \<^verbatim>\<open>configPath\<close> is \<^verbatim>\<open>join(process.cwd(), 'gluon.json')\<close>, fixed when the module is
  loaded; it is taken as it is.
\<close>

datatype event =
    ExistsSync
  | ReadFileSync
  | WriteFileSync jsstring
  | Warning jsstring
  | Error jsstring
  | ErrorExn exn

record state =
  configPath :: jsstring
  configFile :: "jsstring option"
  hasWarnedAboutConfig :: bool
  mockConfig :: jsstring
  trace :: "event list"

text \<open>
  How a call ends: it returns, it ends the process (\<^verbatim>\<open>process.exit\<close>), or it throws.
\<close>

datatype 'a outcome = Return 'a | Exit int | Throw exn

definition emit :: "event \<Rightarrow> state \<Rightarrow> state" where
  "emit e s = s\<lparr>trace := trace s @ [e]\<rparr>"

text \<open>
  Modelled from the spec: the logger \<^verbatim>\<open>log\<close> of \<^verbatim>\<open>../log\<close>, which is not among the
  sources. The spec has it emit a message of the given severity and return: a warning is
  non-fatal and printed, an error is non-fatal, printed, and may be emitted several times
  in one call.
\<close>

definition log_warning :: "jsstring \<Rightarrow> state \<Rightarrow> state" where
  "log_warning msg s = emit (Warning msg) s"

definition log_error :: "jsstring \<Rightarrow> state \<Rightarrow> state" where
  "log_error msg s = emit (Error msg) s"

definition log_error_exn :: "exn \<Rightarrow> state \<Rightarrow> state" where
  "log_error_exn e s = emit (ErrorExn e) s"

subsection \<open>Constants\<close>

datatype SupportedProducts = Firefox | FirefoxESR | FirefoxDev | FirefoxBeta | FirefoxNightly

fun product_value :: "SupportedProducts \<Rightarrow> jsstring" where
  "product_value Firefox = js ''firefox''"
| "product_value FirefoxESR = js ''firefox-esr''"
| "product_value FirefoxDev = js ''firefox-dev''"
| "product_value FirefoxBeta = js ''firefox-beta''"
| "product_value FirefoxNightly = js ''firefox-nightly''"

definition validProducts :: "jsvalue list" where
  "validProducts =
     map (\<lambda>p. JStr (product_value p)) [Firefox, FirefoxESR, FirefoxDev, FirefoxBeta, FirefoxNightly]"

text \<open>\<^verbatim>\<open>Array.prototype.includes\<close> on an array of strings.\<close>

definition Array_includes :: "jsvalue list \<Rightarrow> jsvalue \<Rightarrow> bool" where
  "Array_includes xs v \<longleftrightarrow> v \<in> set xs"

definition defaultLicenseConfig :: jsvalue where
  "defaultLicenseConfig =
     JObj [(js ''ignoredFiles'', JArr [JStr (js ''.*'' @ 0x5C # js ''.json'')]),
           (js ''licenseType'', JStr (js ''MPL-2.0''))]"

definition defaultConfig :: jsvalue where
  "defaultConfig =
     JObj [(js ''name'', JStr (js ''Unknown gluon build'')),
           (js ''vendor'', JStr (js ''Unknown'')),
           (js ''appId'', JStr (js ''unknown.appid'')),
           (js ''binaryName'', JStr (js ''firefox'')),
           (js ''version'', JObj [(js ''product'', JStr (product_value Firefox))]),
           (js ''buildOptions'',
              JObj [(js ''generateBranding'', JBool True),
                    (js ''windowsUseSymbolicLinks'', JBool False)]),
           (js ''addons'', JObj []),
           (js ''brands'', JObj []),
           (js ''license'', defaultLicenseConfig)]"

subsection \<open>Reading the raw text\<close>

definition hasConfig :: "state \<Rightarrow> bool \<times> state" where
  "hasConfig s = (configFile s \<noteq> None, emit ExistsSync s)"

definition setMockRawConfig :: "jsstring \<Rightarrow> state \<Rightarrow> state" where
  "setMockRawConfig config s = s\<lparr>mockConfig := config\<rparr>"

definition missing_config_warning :: "jsstring \<Rightarrow> jsstring" where
  "missing_config_warning path =
     js ''Config file not found at '' @ path
       @ js ''. It is recommended to create one by running |melon setup-project|''"

definition rawConfig :: "state \<Rightarrow> jsstring \<times> state" where
  "rawConfig s =
     (if mockConfig s \<noteq> [] then (mockConfig s, s)
      else
        (case hasConfig s of
           (configExists, s1) \<Rightarrow>
             if configExists then
               (case configFile s1 of
                  Some contents \<Rightarrow> (contents, emit ReadFileSync s1)
                | None \<Rightarrow> (js ''{}'', s1))
             else if \<not> hasWarnedAboutConfig s1 then
               (js ''{}'',
                (log_warning (missing_config_warning (configPath s1)) s1)
                  \<lparr>hasWarnedAboutConfig := True\<rparr>)
             else (js ''{}'', s1)))"

subsection \<open>\<^verbatim>\<open>getConfig\<close>\<close>

text \<open>Lines 232 to 235: the merge with the defaults.\<close>

definition merge_defaults :: "jsvalue \<Rightarrow> exn + jsvalue" where
  "merge_defaults fileParsed =
     (let merged = spread (spread [] defaultConfig) fileParsed
      in case Get (JObj merged) (js ''license'') of
           Inl e \<Rightarrow> Inl e
         | Inr license \<Rightarrow>
             Inr (JObj (obj_set merged (js ''license'')
                          (JObj (spread (spread [] defaultLicenseConfig) license)))))"

text \<open>Sequencing of two steps: the second runs when the first returns.\<close>

definition seq ::
  "(state \<Rightarrow> unit outcome \<times> state) \<Rightarrow> (state \<Rightarrow> 'a outcome \<times> state) \<Rightarrow> state \<Rightarrow> 'a outcome \<times> state"
where
  "seq f g s =
     (case f s of
        (Return u, s') \<Rightarrow> g s'
      | (Exit c, s') \<Rightarrow> (Exit c, s')
      | (Throw e, s') \<Rightarrow> (Throw e, s'))"

definition missing_property :: "string \<Rightarrow> jsstring \<Rightarrow> jsstring" where
  "missing_property name addonKey =
     js ''The '' @ 0x27 # js name @ 0x27 # js '' property was not provided for addon '' @ addonKey"

text \<open>\<^verbatim>\<open>if (!addon.name) log.error(...)\<close>\<close>

definition require :: "jsvalue \<Rightarrow> string \<Rightarrow> jsstring \<Rightarrow> state \<Rightarrow> unit outcome \<times> state" where
  "require addon name addonKey s =
     (case Get addon (js name) of
        Inl e \<Rightarrow> (Throw e, s)
      | Inr v \<Rightarrow>
          (Return (), if \<not> ToBoolean v then log_error (missing_property name addonKey) s else s))"

text \<open>\<^verbatim>\<open>addon.platform == p\<close>\<close>

definition platform_is :: "jsvalue \<Rightarrow> jsstring \<Rightarrow> exn + bool" where
  "platform_is addon p =
     (case Get addon (js ''platform'') of Inl e \<Rightarrow> Inl e | Inr v \<Rightarrow> loose_equals v p)"

text \<open>Lines 247 to 290: the body of the loop over the addons, for one key.\<close>

definition check_addon :: "jsvalue \<Rightarrow> jsstring \<Rightarrow> state \<Rightarrow> unit outcome \<times> state" where
  "check_addon addons addonKey s =
     (case Get addons addonKey of
        Inl e \<Rightarrow> (Throw e, s)
      | Inr addon \<Rightarrow>
          seq (require addon ''id'' addonKey)
            (\<lambda>s. case platform_is addon (js ''url'') of
                   Inl e \<Rightarrow> (Throw e, s)
                 | Inr True \<Rightarrow> require addon ''url'' addonKey s
                 | Inr False \<Rightarrow>
                     (case platform_is addon (js ''amo'') of
                        Inl e \<Rightarrow> (Throw e, s)
                      | Inr True \<Rightarrow>
                          seq (require addon ''amoId'' addonKey)
                            (require addon ''version'' addonKey) s
                      | Inr False \<Rightarrow>
                          (case platform_is addon (js ''github'') of
                             Inl e \<Rightarrow> (Throw e, s)
                           | Inr True \<Rightarrow>
                               seq (require addon ''repo'' addonKey)
                                 (seq (require addon ''version'' addonKey)
                                    (require addon ''fileGlob'' addonKey)) s
                           | Inr False \<Rightarrow>
                               (case Get addon (js ''platform'') of
                                  Inl e \<Rightarrow> (Throw e, s)
                                | Inr platform \<Rightarrow>
                                    (case ToString platform of
                                       Inl e \<Rightarrow> (Throw e, s)
                                     | Inr str \<Rightarrow>
                                         (Return (),
                                          log_error (js ''Unknown addon platform '' @ str) s))))))
            s)"

text \<open>Line 246: \<^verbatim>\<open>for (const addonKey in fileParsed.addons)\<close>, over the keys in order.\<close>

fun check_addons :: "jsvalue \<Rightarrow> jsstring list \<Rightarrow> state \<Rightarrow> unit outcome \<times> state" where
  "check_addons addons [] s = (Return (), s)"
| "check_addons addons (addonKey # keys) s =
     seq (check_addon addons addonKey) (check_addons addons keys) s"

text \<open>Lines 240 to 293: the validation of the merged record.\<close>

definition validate :: "jsvalue \<Rightarrow> state \<Rightarrow> jsvalue outcome \<times> state" where
  "validate fileParsed s =
     (case Get fileParsed (js ''version'') of
        Inl e \<Rightarrow> (Throw e, s)
      | Inr version \<Rightarrow>
          (case Get version (js ''product'') of
             Inl e \<Rightarrow> (Throw e, s)
           | Inr product \<Rightarrow>
               if \<not> Array_includes validProducts product then
                 (case ToString product of
                    Inl e \<Rightarrow> (Throw e, s)
                  | Inr str \<Rightarrow> (Exit 1, log_error (str @ js '' is not a valid product'') s))
               else
                 (case Get fileParsed (js ''addons'') of
                    Inl e \<Rightarrow> (Throw e, s)
                  | Inr addons \<Rightarrow>
                      seq (check_addons addons (map fst (own_props addons)))
                        (\<lambda>s. (Return fileParsed, s)) s)))"

definition binaryName_warning :: jsstring where
  "binaryName_warning =
     js ''It is recommended that you provide a `binaryName` field in your config file, otherwise packaging may get messed up''"

text \<open>
  Lines 213 to 293, the body of \<^verbatim>\<open>getConfig\<close> after the call of \<^verbatim>\<open>rawConfig\<close>: what the
  spec calls the resolution of the raw text.
\<close>

definition resolve :: "jsstring \<Rightarrow> state \<Rightarrow> jsvalue outcome \<times> state" where
  "resolve fileContents s =
     (case JSON_parse fileContents of
        Inl e \<Rightarrow>
          (Exit 1,
           log_error_exn e
             (log_error (js ''Error parsing melon config file located at '' @ configPath s) s))
      | Inr parsed \<Rightarrow>
          (case Get parsed (js ''binaryName'') of
             Inl e \<Rightarrow> (Throw e, s)
           | Inr binaryName \<Rightarrow>
               (let s' = (if \<not> ToBoolean binaryName then log_warning binaryName_warning s else s)
                in case merge_defaults parsed of
                     Inl e \<Rightarrow> (Throw e, s')
                   | Inr fileParsed \<Rightarrow> validate fileParsed s')))"

definition getConfig :: "state \<Rightarrow> jsvalue outcome \<times> state" where
  "getConfig s = (case rawConfig s of (fileContents, s') \<Rightarrow> resolve fileContents s')"

subsection \<open>\<^verbatim>\<open>saveConfig\<close> and the constant \<^verbatim>\<open>config\<close>\<close>

text \<open>
  \<^verbatim>\<open>saveConfig\<close> writes the module's constant \<^verbatim>\<open>config\<close>, here its argument. A value that
  \<^verbatim>\<open>JSON.stringify\<close> maps to \<^verbatim>\<open>undefined\<close> makes \<^verbatim>\<open>writeFileSync\<close> throw.
\<close>

definition saveConfig :: "jsvalue \<Rightarrow> state \<Rightarrow> unit outcome \<times> state" where
  "saveConfig config s =
     (case JSON_stringify config of
        None \<Rightarrow> (Throw TypeError, s)
      | Some text \<Rightarrow> (Return (), emit (WriteFileSync text) (s\<lparr>configFile := Some text\<rparr>)))"

text \<open>
  Loading the module initialises the two variables and evaluates line 300,
  \<^verbatim>\<open>export const config = getConfig()\<close>.
\<close>

definition initial :: "jsstring \<Rightarrow> jsstring option \<Rightarrow> state" where
  "initial path contents =
     \<lparr>configPath = path, configFile = contents, hasWarnedAboutConfig = False, mockConfig = [],
      trace = []\<rparr>"

definition load :: "jsstring \<Rightarrow> jsstring option \<Rightarrow> jsvalue outcome \<times> state" where
  "load path contents = getConfig (initial path contents)"


subsection \<open>The life of a process\<close>

text \<open>
  What can happen after the module is loaded: calls of its functions, in any order, and
  changes of the file by others. \<open>exec\<close> gives the state after one step, or \<open>None\<close> when
  the step ended the process; an exception thrown by \<^verbatim>\<open>getConfig\<close> is left to the caller.
\<close>

datatype step =
    HasConfig
  | SetMockRawConfig jsstring
  | RawConfig
  | GetConfig
  | SaveConfig
  | FileChanged "jsstring option"

fun exec :: "jsvalue \<Rightarrow> step \<Rightarrow> state \<Rightarrow> state option" where
  "exec config HasConfig s = Some (snd (hasConfig s))"
| "exec config (SetMockRawConfig m) s = Some (setMockRawConfig m s)"
| "exec config RawConfig s = Some (snd (rawConfig s))"
| "exec config GetConfig s =
     (case getConfig s of (Exit c, s') \<Rightarrow> None | (r, s') \<Rightarrow> Some s')"
| "exec config SaveConfig s = Some (snd (saveConfig config s))"
| "exec config (FileChanged contents) s = Some (s\<lparr>configFile := contents\<rparr>)"

fun run :: "jsvalue \<Rightarrow> step list \<Rightarrow> state \<Rightarrow> state option" where
  "run config [] s = Some s"
| "run config (x # xs) s =
     (case exec config x s of None \<Rightarrow> None | Some s' \<Rightarrow> run config xs s')"

text \<open>
  A process loads the module, which binds the constant \<^verbatim>\<open>config\<close> of line 300 to what
  \<^verbatim>\<open>getConfig\<close> returns at that moment, and then takes its steps, all of which see that
  constant. There is no process when the call of line 300 ends it or throws.
\<close>

definition process :: "jsstring \<Rightarrow> jsstring option \<Rightarrow> step list \<Rightarrow> state option" where
  "process path contents steps =
     (case load path contents of
        (Return config, s) \<Rightarrow> run config steps s
      | (Exit c, s) \<Rightarrow> None
      | (Throw e, s) \<Rightarrow> None)"


section \<open>Properties\<close>

subsection \<open>The effects of the validation do not depend on the state\<close>

text \<open>
  The validation reads nothing of the state: it only appends its diagnostics to the
  trace. So the outcome of a resolution and its diagnostics can be computed once, on an
  empty trace.
\<close>


definition appends :: "event list \<Rightarrow> state \<Rightarrow> state" where
  "appends es s = s\<lparr>trace := trace s @ es\<rparr>"

fun is_error :: "event \<Rightarrow> bool" where
  "is_error (Error m) = True"
| "is_error _ = False"

definition uniform :: "(state \<Rightarrow> 'a outcome \<times> state) \<Rightarrow> bool" where
  "uniform f \<longleftrightarrow> (\<exists>r es. list_all is_error es \<and> (\<forall>s. f s = (r, appends es s)))"

lemma appends_Nil [simp]: "appends [] s = s"
  by (simp add: appends_def)

lemma appends_appends [simp]: "appends es (appends es' s) = appends (es' @ es) s"
  by (simp add: appends_def)

lemma log_error_appends: "log_error m s = appends [Error m] s"
  by (simp add: log_error_def emit_def appends_def)

lemma uniformI: "list_all is_error es \<Longrightarrow> (\<And>s. f s = (r, appends es s)) \<Longrightarrow> uniform f"
  unfolding uniform_def by blast

lemma uniform_const: "uniform (\<lambda>s. (r, s))"
  by (rule uniformI [of "[]"]) simp_all

lemma uniform_log_error: "uniform (\<lambda>s. (r, log_error m s))"
  by (rule uniformI [of "[Error m]"]) (simp_all add: log_error_appends)

lemma uniform_require: "uniform (require addon name k)"
proof (cases "Get addon (js name)")
  case (Inl e)
  then have "require addon name k = (\<lambda>s. (Throw e, s))"
    by (simp add: require_def fun_eq_iff)
  then show ?thesis by (simp add: uniform_const)
next
  case (Inr v)
  then have "require addon name k =
      (if \<not> ToBoolean v then (\<lambda>s. (Return (), log_error (missing_property name k) s))
       else (\<lambda>s. (Return (), s)))"
    by (simp add: require_def fun_eq_iff)
  then show ?thesis by (simp add: uniform_const uniform_log_error)
qed

lemma uniform_seq:
  assumes "uniform f" "uniform g"
  shows "uniform (seq f g)"
proof -
  from assms(1) obtain r es where f: "list_all is_error es" "\<And>s. f s = (r, appends es s)"
    unfolding uniform_def by blast
  from assms(2) obtain r' es' where g: "list_all is_error es'" "\<And>s. g s = (r', appends es' s)"
    unfolding uniform_def by blast
  show ?thesis
  proof (cases r)
    case (Return u)
    show ?thesis
      by (rule uniformI [of "es @ es'" _ r']) (simp_all add: f g seq_def Return)
  next
    case (Exit c)
    show ?thesis
      by (rule uniformI [of es _ "Exit c"]) (simp_all add: f seq_def Exit)
  next
    case (Throw e)
    show ?thesis
      by (rule uniformI [of es _ "Throw e"]) (simp_all add: f seq_def Throw)
  qed
qed

lemma uniform_case_sum:
  assumes "\<And>e. x = Inl e \<Longrightarrow> uniform (f e)" "\<And>v. x = Inr v \<Longrightarrow> uniform (g v)"
  shows "uniform (\<lambda>s. case x of Inl e \<Rightarrow> f e s | Inr v \<Rightarrow> g v s)"
  using assms by (cases x) simp_all

lemma uniform_case_bool:
  assumes "b \<Longrightarrow> uniform f" "\<not> b \<Longrightarrow> uniform g"
  shows "uniform (\<lambda>s. case b of True \<Rightarrow> f s | False \<Rightarrow> g s)"
  using assms by (cases b) simp_all

lemma uniform_if:
  assumes "b \<Longrightarrow> uniform f" "\<not> b \<Longrightarrow> uniform g"
  shows "uniform (\<lambda>s. if b then f s else g s)"
  using assms by (cases b) simp_all

lemma uniform_check_addon: "uniform (check_addon addons k)"
proof -
  have "uniform (\<lambda>s. check_addon addons k s)"
    unfolding check_addon_def
    by (intro uniform_case_sum uniform_case_bool uniform_seq uniform_require uniform_const
          uniform_log_error)
  then show ?thesis by simp
qed

lemma uniform_check_addons: "uniform (check_addons addons ks)"
proof (induction ks)
  case Nil
  have "check_addons addons [] = (\<lambda>s. (Return (), s))" by (simp add: fun_eq_iff)
  then show ?case by (simp add: uniform_const)
next
  case (Cons k ks)
  have "check_addons addons (k # ks) = seq (check_addon addons k) (check_addons addons ks)"
    by (simp add: fun_eq_iff)
  then show ?case by (simp add: uniform_seq uniform_check_addon Cons.IH)
qed

lemma uniform_validate: "uniform (validate c)"
proof -
  have "uniform (\<lambda>s. validate c s)"
    unfolding validate_def
    by (intro uniform_case_sum uniform_if uniform_seq uniform_check_addons uniform_const
          uniform_log_error)
  then show ?thesis by simp
qed


fun is_diagnostic :: "event \<Rightarrow> bool" where
  "is_diagnostic (Error m) = True"
| "is_diagnostic (ErrorExn x) = True"
| "is_diagnostic (Warning m) = (m = binaryName_warning)"
| "is_diagnostic _ = False"

lemma is_error_diagnostic: "list_all is_error es \<Longrightarrow> list_all is_diagnostic es"
  by (induction es) (auto elim: is_error.elims)

lemma resolve_uniform:
  "\<exists>r es. list_all is_diagnostic es \<and> (\<forall>s. configPath s = path \<longrightarrow> resolve t s = (r, appends es s))"
proof (cases "JSON_parse t")
  case (Inl e)
  show ?thesis
    by (rule exI [of _ "Exit 1"],
        rule exI [of _ "[Error (js ''Error parsing melon config file located at '' @ path), ErrorExn e]"])
      (simp add: resolve_def Inl log_error_def log_error_exn_def emit_def appends_def)
next
  case parsed: (Inr parsed)
  show ?thesis
  proof (cases "Get parsed (js ''binaryName'')")
    case (Inl e)
    show ?thesis
      by (rule exI [of _ "Throw e"], rule exI [of _ "[]"]) (simp add: resolve_def parsed Inl)
  next
    case bn: (Inr binaryName)
    define ws where "ws = (if \<not> ToBoolean binaryName then [Warning binaryName_warning] else [])"
    have ws: "list_all is_diagnostic ws"
      by (simp add: ws_def)
    have s': "(if \<not> ToBoolean binaryName then log_warning binaryName_warning s else s) = appends ws s" for s
      by (simp add: ws_def log_warning_def emit_def appends_def)
    show ?thesis
    proof (cases "merge_defaults parsed")
      case (Inl e)
      show ?thesis
        by (rule exI [of _ "Throw e"], rule exI [of _ ws])
          (simp add: resolve_def parsed bn Inl s' ws)
    next
      case (Inr fileParsed)
      from uniform_validate [of fileParsed] obtain r es
        where v: "list_all is_error es" "\<And>s. validate fileParsed s = (r, appends es s)"
        unfolding uniform_def by blast
      show ?thesis
        by (rule exI [of _ r], rule exI [of _ "ws @ es"])
          (simp add: resolve_def parsed bn Inr s' ws v is_error_diagnostic)
    qed
  qed
qed

lemma resolve_at:
  "resolve t s =
     (fst (resolve t (initial (configPath s) None)),
      appends (trace (snd (resolve t (initial (configPath s) None)))) s)"
proof -
  from resolve_uniform [of "configPath s" t] obtain r es
    where "\<And>s'. configPath s' = configPath s \<Longrightarrow> resolve t s' = (r, appends es s')"
    by blast
  from this [of s] this [of "initial (configPath s) None"] show ?thesis
    by (simp add: initial_def appends_def)
qed

lemma resolve_diagnostics:
  "list_all is_diagnostic (trace (snd (resolve t (initial path None))))"
proof -
  from resolve_uniform [of path t] obtain r es
    where "list_all is_diagnostic es"
      "\<And>s'. configPath s' = path \<Longrightarrow> resolve t s' = (r, appends es s')"
    by blast
  from this(1) this(2) [of "initial path None"] show ?thesis
    by (simp add: initial_def appends_def)
qed

text \<open>What the functions leave alone.\<close>

lemma rawConfig_frame:
  "mockConfig (snd (rawConfig s)) = mockConfig s"
  "configFile (snd (rawConfig s)) = configFile s"
  "configPath (snd (rawConfig s)) = configPath s"
  by (simp_all add: rawConfig_def hasConfig_def emit_def log_warning_def split: option.split)

lemma getConfig_eq:
  "getConfig s =
     (fst (resolve (fst (rawConfig s)) (initial (configPath s) None)),
      appends (trace (snd (resolve (fst (rawConfig s)) (initial (configPath s) None))))
        (snd (rawConfig s)))"
proof -
  obtain t s1 where r: "rawConfig s = (t, s1)"
    by (cases "rawConfig s")
  with rawConfig_frame(3) [of s] have "configPath s1 = configPath s"
    by simp
  with resolve_at [of t s1] r show ?thesis
    by (simp add: getConfig_def)
qed

lemma getConfig_frame:
  "mockConfig (snd (getConfig s)) = mockConfig s"
  "configFile (snd (getConfig s)) = configFile s"
  "configPath (snd (getConfig s)) = configPath s"
  "hasWarnedAboutConfig (snd (getConfig s)) = hasWarnedAboutConfig (snd (rawConfig s))"
  by (simp_all add: getConfig_eq appends_def rawConfig_frame)



subsection \<open>What the functions change\<close>

lemma validate_outcome: "fst (validate c s) = fst (validate c s')"
proof -
  from uniform_validate [of c] obtain r es where "\<And>s. validate c s = (r, appends es s)"
    unfolding uniform_def by blast
  then show ?thesis by simp
qed

lemma resolve_outcome: "fst (resolve t s) = fst (resolve t s')"
  unfolding resolve_def Let_def
  by (auto split: sum.splits intro: validate_outcome)

lemma getConfig_outcome: "fst (getConfig s) = fst (resolve (fst (rawConfig s)) s0)"
  by (cases "rawConfig s") (auto simp: getConfig_def intro: resolve_outcome)

lemma getConfig_result_frame:
  assumes "getConfig s = (r, s')"
  shows "mockConfig s' = mockConfig s" "configFile s' = configFile s" "configPath s' = configPath s"
  using getConfig_frame(1-3) [of s] assms by simp_all

lemma hasConfig_frame:
  "mockConfig (snd (hasConfig s)) = mockConfig s"
  "configFile (snd (hasConfig s)) = configFile s"
  "configPath (snd (hasConfig s)) = configPath s"
  "hasWarnedAboutConfig (snd (hasConfig s)) = hasWarnedAboutConfig s"
  "trace (snd (hasConfig s)) = trace s @ [ExistsSync]"
  by (simp_all add: hasConfig_def emit_def)

lemma saveConfig_frame:
  "mockConfig (snd (saveConfig c s)) = mockConfig s"
  "configPath (snd (saveConfig c s)) = configPath s"
  "hasWarnedAboutConfig (snd (saveConfig c s)) = hasWarnedAboutConfig s"
  by (simp_all add: saveConfig_def emit_def split: option.split)

lemma exec_mockConfig:
  "exec config x s = Some s' \<Longrightarrow>
   mockConfig s' = (case x of SetMockRawConfig m \<Rightarrow> m | _ \<Rightarrow> mockConfig s)"
  by (cases x)
    (auto simp: hasConfig_frame rawConfig_frame saveConfig_frame setMockRawConfig_def
       split: prod.splits outcome.splits dest: getConfig_result_frame(1))

lemma run_mockConfig:
  "mockConfig s \<noteq> [] \<Longrightarrow> SetMockRawConfig [] \<notin> set steps \<Longrightarrow> run config steps s = Some s' \<Longrightarrow>
   mockConfig s' \<noteq> [] \<and> mockConfig s' \<in> insert (mockConfig s) {m. SetMockRawConfig m \<in> set steps}"
proof (induction steps arbitrary: s)
  case Nil
  then show ?case by simp
next
  case (Cons x xs)
  from Cons.prems(3) obtain s1 where x: "exec config x s = Some s1" and xs: "run config xs s1 = Some s'"
    by (auto split: option.splits)
  from exec_mockConfig [OF x] Cons.prems(1,2) have s1: "mockConfig s1 \<noteq> []"
    by (cases x) auto
  from Cons.IH [OF s1 _ xs] Cons.prems(2) exec_mockConfig [OF x] show ?case
    by (cases x) auto
qed

lemma rawConfig_eq:
  "rawConfig s =
     (if mockConfig s \<noteq> [] then (mockConfig s, s)
      else case configFile s of
             Some contents \<Rightarrow> (contents, appends [ExistsSync, ReadFileSync] s)
           | None \<Rightarrow>
               if hasWarnedAboutConfig s then (js ''{}'', appends [ExistsSync] s)
               else (js ''{}'',
                     (appends [ExistsSync, Warning (missing_config_warning (configPath s))] s)
                       \<lparr>hasWarnedAboutConfig := True\<rparr>))"
  by (simp add: rawConfig_def hasConfig_def emit_def log_warning_def appends_def
        split: option.split)

lemma binaryName_warning_neq: "binaryName_warning \<noteq> missing_config_warning p"
  by (simp add: binaryName_warning_def missing_config_warning_def js_def)

lemma diagnostics_count:
  "list_all is_diagnostic es \<Longrightarrow> count_list es (Warning (missing_config_warning p)) = 0"
  by (induction es) (auto simp: binaryName_warning_neq [symmetric] elim: is_diagnostic.elims)

lemma rawConfig_warned:
  assumes "count_list (trace s) (Warning (missing_config_warning (configPath s))) =
             (if hasWarnedAboutConfig s then 1 else 0)"
  shows "count_list (trace (snd (rawConfig s))) (Warning (missing_config_warning (configPath s))) =
           (if hasWarnedAboutConfig (snd (rawConfig s)) then 1 else 0)"
proof (cases "mockConfig s \<noteq> []")
  case True
  with assms show ?thesis by (simp add: rawConfig_eq)
next
  case False
  with assms show ?thesis
    by (cases "configFile s"; cases "hasWarnedAboutConfig s") (simp_all add: rawConfig_eq appends_def)
qed

lemma exec_warned:
  assumes "exec config x s = Some s'"
    and "configPath s = p"
    and "count_list (trace s) (Warning (missing_config_warning p)) =
           (if hasWarnedAboutConfig s then 1 else 0)"
  shows "configPath s' = p \<and>
         count_list (trace s') (Warning (missing_config_warning p)) =
           (if hasWarnedAboutConfig s' then 1 else 0)"
proof (cases x)
  case GetConfig
  with assms(1) have s': "s' = snd (getConfig s)"
    by (auto split: prod.splits outcome.splits)
  show ?thesis
    unfolding s' getConfig_eq [of s]
    using assms(2) rawConfig_warned [of s] assms(3) resolve_diagnostics [of "fst (rawConfig s)" p]
    by (simp add: appends_def diagnostics_count rawConfig_frame)
next
  case SaveConfig
  with assms show ?thesis
    by (auto simp: saveConfig_def emit_def split: option.splits)
next
  case RawConfig
  with assms rawConfig_warned [of s] show ?thesis
    by (auto simp: rawConfig_frame)
qed (use assms in \<open>auto simp: hasConfig_def emit_def setMockRawConfig_def\<close>)

lemma run_warned:
  assumes "run config steps s = Some s'"
    and "configPath s = p"
    and "count_list (trace s) (Warning (missing_config_warning p)) =
           (if hasWarnedAboutConfig s then 1 else 0)"
  shows "configPath s' = p \<and>
         count_list (trace s') (Warning (missing_config_warning p)) =
           (if hasWarnedAboutConfig s' then 1 else 0)"
  using assms
proof (induction steps arbitrary: s)
  case Nil
  then show ?case by simp
next
  case (Cons x xs)
  from Cons.prems(1) obtain s1 where x: "exec config x s = Some s1" and xs: "run config xs s1 = Some s'"
    by (auto split: option.splits)
  from exec_warned [OF x Cons.prems(2,3)] Cons.IH [OF xs] show ?case
    by blast
qed

subsection \<open>Decoded values\<close>

text \<open>
  What \<^verbatim>\<open>JSON.parse\<close> returns: no \<^verbatim>\<open>undefined\<close>, numbers in their normal form, and in
  every object distinct keys in the order of \<^verbatim>\<open>OrdinaryOwnPropertyKeys\<close>.
\<close>

definition ordered_keys :: "jsstring list \<Rightarrow> bool" where
  "ordered_keys ks \<longleftrightarrow> distinct ks \<and> sorted_wrt (\<lambda>a b. \<not> comes_before b a) ks"

fun normal :: "number \<Rightarrow> bool" where
  "normal (Infinity neg) = True"
| "normal (Finite neg m e) =
     (if m = 0 then e = 0
      else 0 < m \<and> m < 2 ^ 53 \<and> - 1074 \<le> e \<and> e \<le> 971 \<and> (2 ^ 52 \<le> m \<or> e = - 1074))"

fun decoded :: "jsvalue \<Rightarrow> bool" where
  "decoded JUndefined = False"
| "decoded JNull = True"
| "decoded (JBool b) = True"
| "decoded (JNum n) = normal n"
| "decoded (JStr s) = True"
| "decoded (JArr vs) = (\<forall>v \<in> set vs. decoded v)"
| "decoded (JObj ps) = (ordered_keys (map fst ps) \<and> (\<forall>(k, v) \<in> set ps. decoded v))"

lemma comes_before_trans: "comes_before a b \<Longrightarrow> comes_before b c \<Longrightarrow> comes_before a c"
  by (auto simp: comes_before_def split: option.splits)

lemma comes_before_irrefl: "\<not> comes_before a a"
  by (auto simp: comes_before_def split: option.splits)

lemma comes_before_asym: "comes_before a b \<Longrightarrow> \<not> comes_before b a"
  by (auto simp: comes_before_def split: option.splits)

lemma set_insert_new: "set (insert_new ps k v) = insert (k, v) (set ps)"
  by (induction ps) (auto split: if_splits)

lemma keys_insert_new: "set (map fst (insert_new ps k v)) = insert k (set (map fst ps))"
  by (simp add: set_insert_new)

lemma ordered_insert_new:
  "ordered_keys (map fst ps) \<Longrightarrow> k \<notin> set (map fst ps) \<Longrightarrow> ordered_keys (map fst (insert_new ps k v))"
proof (induction ps)
  case Nil
  then show ?case by (simp add: ordered_keys_def)
next
  case (Cons p ps)
  obtain k' v' where p: "p = (k', v')" by (cases p)
  show ?case
  proof (cases "comes_before k k'")
    case True
    with Cons.prems show ?thesis
      by (auto simp: p ordered_keys_def dest: comes_before_trans comes_before_asym)
  next
    case False
    with Cons show ?thesis
      by (auto simp: p ordered_keys_def keys_insert_new simp del: set_map)
  qed
qed

lemma keys_obj_set_present:
  "k \<in> fst ` set ps \<Longrightarrow> map fst (obj_set ps k v) = map fst ps"
  by (auto simp: obj_set_def split: prod.split)

lemma ordered_obj_set: "ordered_keys (map fst ps) \<Longrightarrow> ordered_keys (map fst (obj_set ps k v))"
  by (cases "k \<in> fst ` set ps") (simp_all add: keys_obj_set_present, simp add: obj_set_def ordered_insert_new)

lemma values_obj_set: "(k', v') \<in> set (obj_set ps k v) \<Longrightarrow> v' = v \<or> (k', v') \<in> set ps"
proof (cases "k \<in> fst ` set ps")
  case True
  assume "(k', v') \<in> set (obj_set ps k v)"
  with True show ?thesis by (auto simp: obj_set_def split: if_splits)
next
  case False
  assume "(k', v') \<in> set (obj_set ps k v)"
  with False show ?thesis by (auto simp: obj_set_def set_insert_new)
qed

lemma decoded_obj_set:
  "decoded (JObj ps) \<Longrightarrow> decoded v \<Longrightarrow> decoded (JObj (obj_set ps k v))"
  by (auto simp: ordered_obj_set dest: values_obj_set)


lemma last_dropWhile: "dropWhile P xs \<noteq> [] \<Longrightarrow> last (dropWhile P xs) = last xs"
  by (induction xs) (auto split: if_splits)

lemma strip_zeros_normal:
  assumes "strip_zeros ds \<noteq> []"
  shows "hd (strip_zeros ds) \<noteq> 0" "last (strip_zeros ds) \<noteq> 0"
proof -
  let ?xs = "dropWhile (\<lambda>d. d = 0) ds"
  let ?ys = "dropWhile (\<lambda>d. d = 0) (rev ?xs)"
  from assms have ys: "?ys \<noteq> []" by (simp add: strip_zeros_def)
  have xs: "?xs \<noteq> []"
  proof
    assume "?xs = []"
    with ys show False by simp
  qed
  from ys have "hd ?ys \<noteq> 0" using hd_dropWhile [of "\<lambda>d. d = 0" "rev ?xs"] by simp
  then show "last (strip_zeros ds) \<noteq> 0"
    using ys by (simp add: strip_zeros_def last_rev)
  from xs have "hd ?xs \<noteq> 0" using hd_dropWhile [of "\<lambda>d. d = 0" ds] by simp
  moreover have "hd (rev ?ys) = last ?ys" using ys by (simp add: hd_rev)
  moreover have "last ?ys = last (rev ?xs)" using ys by (rule last_dropWhile)
  moreover have "last (rev ?xs) = hd ?xs" using xs by (simp add: last_rev)
  ultimately show "hd (strip_zeros ds) \<noteq> 0" by (simp add: strip_zeros_def)
qed

lemma set_strip_zeros: "set (strip_zeros ds) \<subseteq> set ds"
proof
  fix d
  assume "d \<in> set (strip_zeros ds)"
  then have "d \<in> set (dropWhile (\<lambda>d. d = 0) (rev (dropWhile (\<lambda>d. d = 0) ds)))"
    by (simp add: strip_zeros_def)
  then have "d \<in> set (rev (dropWhile (\<lambda>d. d = 0) ds))"
    by (rule set_dropWhileD)
  then have "d \<in> set (dropWhile (\<lambda>d. d = 0) ds)"
    by simp
  then show "d \<in> set ds"
    by (rule set_dropWhileD)
qed

text \<open>The rounding gives a double, and gives back a double that is written exactly.\<close>

lemma scale_pow2:
  "real_of_int (a * 2 ^ nat (- k)) / real_of_int (b * 2 ^ nat k)
     = real_of_int a / real_of_int b * 2 powi (- k)"
  by (cases "0 \<le> k") (simp_all add: power_int_def field_simps)

lemma below_pow2_real:
  assumes "0 < b"
  shows "below_pow2 a b k \<longleftrightarrow> real_of_int a / real_of_int b < 2 powi k"
proof -
  have pos: "0 < real_of_int (b * 2 ^ nat k)"
    using assms by simp
  have "below_pow2 a b k \<longleftrightarrow> real_of_int (a * 2 ^ nat (- k)) < real_of_int (b * 2 ^ nat k)"
    unfolding below_pow2_def by (simp only: of_int_less_iff)
  also have "\<dots> \<longleftrightarrow> real_of_int (a * 2 ^ nat (- k)) / real_of_int (b * 2 ^ nat k) < 1"
    using pos by (simp only: divide_less_eq_1_pos)
  also have "\<dots> \<longleftrightarrow> real_of_int a / real_of_int b * 2 powi (- k) < 1"
    by (simp only: scale_pow2)
  also have "\<dots> \<longleftrightarrow> real_of_int a / real_of_int b < 2 powi k"
    using assms by (simp add: power_int_minus_divide pos_divide_less_eq zero_less_mult_iff mult.commute)
  finally show ?thesis .
qed

lemma bit_length_bounds:
  "0 < n \<Longrightarrow> 1 \<le> bit_length n \<and> 2 ^ nat (bit_length n - 1) \<le> n \<and> n < 2 ^ nat (bit_length n)"
proof (induction n rule: bit_length.induct)
  case (1 n)
  have half: "2 * (n div 2) \<le> n" "n < 2 * (n div 2) + 2"
    by presburger+
  show ?case
  proof (cases "n div 2 = 0")
    case True
    with half "1.prems" have "n = 1" by simp
    then show ?thesis
      by (simp add: bit_length.simps [of 1] bit_length.simps [of 0])
  next
    case False
    with half "1.prems" have pos: "0 < n div 2" by linarith
    define l where "l = bit_length (n div 2)"
    define P :: int where "P = 2 ^ nat (l - 1)"
    from "1.IH" [OF _ pos] "1.prems" have IH: "1 \<le> l" "P \<le> n div 2" "n div 2 < 2 ^ nat l"
      by (simp_all add: l_def P_def)
    from IH(1) have "nat l = Suc (nat (l - 1))"
      by simp
    then have twice: "(2::int) ^ nat l = 2 * P"
      by (simp add: P_def)
    have bl: "bit_length n = 1 + l"
      using "1.prems" by (simp add: bit_length.simps [of n] l_def)
    from IH(1) have "nat (1 + l) = Suc (nat l)"
      by simp
    then have "(2::int) ^ nat (bit_length n) = 4 * P" "(2::int) ^ nat (bit_length n - 1) = 2 * P"
      by (simp_all add: bl twice)
    moreover from IH(2,3) half have "2 * P \<le> n" "n < 4 * P"
      by (simp_all add: twice)
    ultimately show ?thesis
      using IH(1) by (simp add: bl)
  qed
qed

lemma bit_length_real:
  assumes "0 < n"
  shows "2 powi (bit_length n - 1) \<le> real_of_int n" "real_of_int n < 2 powi (bit_length n)"
proof -
  from bit_length_bounds [OF assms] have b: "1 \<le> bit_length n"
    "2 ^ nat (bit_length n - 1) \<le> n" "n < 2 ^ nat (bit_length n)"
    by simp_all
  from b(2) have "real_of_int (2 ^ nat (bit_length n - 1)) \<le> real_of_int n"
    by (simp only: of_int_le_iff)
  with b(1) show "2 powi (bit_length n - 1) \<le> real_of_int n"
    by (simp add: power_int_def)
  from b(3) have "real_of_int n < real_of_int (2 ^ nat (bit_length n))"
    by (simp only: of_int_less_iff)
  with b(1) show "real_of_int n < 2 powi (bit_length n)"
    by (simp add: power_int_def)
qed


lemma ulp_exponent_bounds:
  assumes "0 < a" "0 < b"
  shows "2 powi (ulp_exponent a b + 52) \<le> real_of_int a / real_of_int b"
    and "real_of_int a / real_of_int b < 2 powi (ulp_exponent a b + 53)"
proof -
  let ?q = "real_of_int a / real_of_int b"
  let ?c = "bit_length a - bit_length b"
  note A = bit_length_real [OF assms(1)] and B = bit_length_real [OF assms(2)]
  have "2 powi (bit_length a - 1) / 2 powi (bit_length b) \<le> ?q"
    using A(1) B(2) assms by (intro frac_le) simp_all
  moreover have "bit_length a - 1 - bit_length b = ?c - 1"
    by simp
  ultimately have lower: "2 powi (?c - 1) \<le> ?q"
    using power_int_diff [of "2::real" "bit_length a - 1" "bit_length b"] by (simp only:) simp
  have "?q < 2 powi (bit_length a) / 2 powi (bit_length b - 1)"
    using A(2) B(1) assms by (intro frac_less) simp_all
  moreover have "bit_length a - (bit_length b - 1) = ?c + 1"
    by simp
  ultimately have upper: "?q < 2 powi (?c + 1)"
    using power_int_diff [of "2::real" "bit_length a" "bit_length b - 1"] by (simp only:) simp
  have e: "?c - 53 + 52 = ?c - 1" "?c - 53 + 53 = ?c" "?c - 52 + 52 = ?c" "?c - 52 + 53 = ?c + 1"
    by simp_all
  show "2 powi (ulp_exponent a b + 52) \<le> ?q"
  proof (cases "below_pow2 a b ?c")
    case True
    with lower show ?thesis
      by (simp only: ulp_exponent_def Let_def if_True e)
  next
    case False
    with below_pow2_real [OF assms(2), of a ?c] show ?thesis
      by (simp only: ulp_exponent_def Let_def if_False e; simp)
  qed
  show "?q < 2 powi (ulp_exponent a b + 53)"
  proof (cases "below_pow2 a b ?c")
    case True
    with below_pow2_real [OF assms(2), of a ?c] show ?thesis
      by (simp only: ulp_exponent_def Let_def if_True e; simp)
  next
    case False
    with upper show ?thesis
      by (simp only: ulp_exponent_def Let_def if_False e)
  qed
qed

lemma pow2_less:
  fixes q :: real
  assumes "2 powi i \<le> q" "q < 2 powi j"
  shows "i < j"
proof (rule ccontr)
  assume "\<not> i < j"
  then have "(2::real) powi j \<le> 2 powi i"
    by (intro power_int_increasing) simp_all
  with assms show False by simp
qed

lemma scaled_bounds:
  fixes q :: real
  assumes "2 powi (x + k) \<le> q"
  shows "2 powi k \<le> q * 2 powi (- x)"
proof -
  have "2 powi (x + k) * 2 powi (- x) \<le> q * 2 powi (- x)"
    using assms by (intro mult_right_mono) simp_all
  then show ?thesis
    by (simp add: power_int_add [symmetric])
qed

lemma scaled_less:
  fixes q :: real
  assumes "q < 2 powi (x + k)"
  shows "q * 2 powi (- x) < 2 powi k"
proof -
  have "q * 2 powi (- x) < 2 powi (x + k) * 2 powi (- x)"
    using assms by (intro mult_strict_right_mono) simp_all
  then show ?thesis
    by (simp add: power_int_add [symmetric])
qed

lemma round_half_even_exact: "0 < d \<Longrightarrow> round_half_even (k * d) d = k"
  by (simp add: round_half_even_def)

lemma round_half_even_bounds:
  "n div d \<le> round_half_even n d" "round_half_even n d \<le> n div d + 1"
  by (simp_all add: round_half_even_def Let_def)


lemma scaled_floor:
  "(a * 2 ^ nat (- e)) div (b * 2 ^ nat e) = \<lfloor>real_of_int a / real_of_int b * 2 powi (- e)\<rfloor>"
  by (simp only: scale_pow2 [symmetric] floor_divide_of_int_eq)

lemma pack_normal:
  "- 1074 \<le> e \<Longrightarrow> 0 \<le> m \<Longrightarrow> m \<le> 2 ^ 53 \<Longrightarrow> 2 ^ 52 \<le> m \<or> e = - 1074 \<Longrightarrow> normal (pack neg m e)"
  by (auto simp: pack_def)

lemma round_double_normal:
  assumes "0 \<le> a" "0 < b"
  shows "normal (round_double neg a b)"
proof (cases "a = 0")
  case True
  then show ?thesis by (simp add: round_double_def)
next
  case False
  with assms have a: "0 < a" by simp
  define x where "x = ulp_exponent a b"
  define e where "e = max x (- 1074)"
  define y where "y = real_of_int a / real_of_int b * 2 powi (- e)"
  define m where "m = round_half_even (a * 2 ^ nat (- e)) (b * 2 ^ nat e)"
  note q = ulp_exponent_bounds [OF a assms(2), folded x_def]
  have "0 \<le> y"
    using a assms(2) by (simp add: y_def)
  have m: "\<lfloor>y\<rfloor> \<le> m" "m \<le> \<lfloor>y\<rfloor> + 1"
    using round_half_even_bounds [of "a * 2 ^ nat (- e)" "b * 2 ^ nat e"]
    by (simp_all add: m_def y_def scaled_floor)
  have "normal (pack neg m e)"
  proof (cases "- 1074 \<le> x")
    case True
    then have e: "e = x" by (simp add: e_def)
    from scaled_bounds [OF q(1)] scaled_less [OF q(2)] have "2 powi 52 \<le> y" "y < 2 powi 53"
      by (simp_all add: y_def e)
    then have "2 ^ 52 \<le> \<lfloor>y\<rfloor>" "\<lfloor>y\<rfloor> < 2 ^ 53"
      by (simp_all add: le_floor_iff floor_less_iff)
    moreover have "(0::int) \<le> 2 ^ 52"
      by simp
    ultimately have "2 ^ 52 \<le> m" "m \<le> 2 ^ 53" "0 \<le> m"
      using m by linarith+
    with True e show ?thesis
      by (intro pack_normal) simp_all
  next
    case False
    then have e: "e = - 1074" by (simp add: e_def)
    from False have "x + 53 \<le> - 1074 + 52"
      by simp
    then have "(2::real) powi (x + 53) \<le> 2 powi (- 1074 + 52)"
      by (rule power_int_increasing) simp
    from scaled_less [OF less_le_trans [OF q(2) this]] have "y < 2 powi 52"
      by (simp only: y_def e)
    then have "\<lfloor>y\<rfloor> < 2 ^ 52"
      by (simp add: floor_less_iff)
    moreover from \<open>0 \<le> y\<close> have "0 \<le> \<lfloor>y\<rfloor>"
      by simp
    moreover have "(2::int) ^ 52 \<le> 2 ^ 53"
      by simp
    ultimately have "0 \<le> m" "m \<le> 2 ^ 53"
      using m by linarith+
    with e show ?thesis
      by (intro pack_normal) simp_all
  qed
  then show ?thesis
    using False by (simp add: round_double_def Let_def m_def e_def x_def)
qed

lemma round_double_exact:
  assumes "normal (Finite neg m e)" "0 < m" "0 < a" "0 < b"
    and val: "real_of_int a / real_of_int b = real_of_int m * 2 powi e"
  shows "round_double neg a b = Finite neg m e"
proof -
  define x where "x = ulp_exponent a b"
  note q = ulp_exponent_bounds [OF assms(3,4), folded x_def]
  from assms(1,2) have n: "m < 2 ^ 53" "- 1074 \<le> e" "e \<le> 971" "2 ^ 52 \<le> m \<or> e = - 1074"
    by simp_all
  have upper: "real_of_int a / real_of_int b < 2 powi (e + 53)"
  proof -
    from n(1) have "real_of_int m < 2 ^ 53"
      by simp
    then have "real_of_int m * 2 powi e < 2 ^ 53 * 2 powi e"
      by (intro mult_strict_right_mono) simp_all
    then show ?thesis
      by (simp add: val power_int_add)
  qed
  have e: "max x (- 1074) = e"
  proof (cases "2 ^ 52 \<le> m")
    case True
    then have "(2::real) ^ 52 \<le> real_of_int m"
      by simp
    then have "2 ^ 52 * 2 powi e \<le> real_of_int m * 2 powi e"
      by (intro mult_right_mono) simp_all
    then have lower: "2 powi (e + 52) \<le> real_of_int a / real_of_int b"
      by (simp add: val power_int_add)
    from pow2_less [OF q(1) upper] pow2_less [OF lower q(2)] have "x = e"
      by simp
    with n(2) show ?thesis by simp
  next
    case False
    with n(4) have e: "e = - 1074" by simp
    from False have "real_of_int m < 2 ^ 52"
      by simp
    then have "real_of_int m * 2 powi e < 2 ^ 52 * 2 powi e"
      by (intro mult_strict_right_mono) simp_all
    then have "real_of_int a / real_of_int b < 2 powi (e + 52)"
      by (simp add: val power_int_add)
    from pow2_less [OF q(1) this] e show ?thesis
      by simp
  qed
  have d: "0 < b * 2 ^ nat e"
    using assms(4) by simp
  have nz: "real_of_int (b * 2 ^ nat e) \<noteq> 0"
    using assms(4) by simp
  have "real_of_int (a * 2 ^ nat (- e)) / real_of_int (b * 2 ^ nat e) = real_of_int m"
    by (simp only: scale_pow2 val) (simp add: power_int_minus)
  from nonzero_divide_eq_eq [THEN iffD1, OF nz this]
  have "real_of_int (a * 2 ^ nat (- e)) = real_of_int (m * (b * 2 ^ nat e))"
    by (simp only: of_int_mult)
  then have "a * 2 ^ nat (- e) = m * (b * 2 ^ nat e)"
    by (simp only: of_int_eq_iff)
  with round_half_even_exact [OF d, of m]
  have "round_half_even (a * 2 ^ nat (- e)) (b * 2 ^ nat e) = m"
    by simp
  with assms(2,3) n(1,3) e show ?thesis
    by (simp add: round_double_def Let_def x_def pack_def)
qed

lemma int_of_digits_nonneg: "0 \<le> int_of_digits ds"
proof -
  have "0 \<le> a \<Longrightarrow> 0 \<le> foldl (\<lambda>a d. 10 * a + int d) a ds" for a
    by (induction ds arbitrary: a) simp_all
  then show ?thesis
    by (simp add: int_of_digits_def)
qed

lemma normal_number_of_literal: "normal (number_of_literal neg ip fp ex)"
  using int_of_digits_nonneg [of "ip @ fp"]
  by (simp add: number_of_literal_def Let_def round_double_normal)

lemma digit_value_less: "is_digit c \<Longrightarrow> digit_value c < 10"
  by (simp add: is_digit_def digit_value_def word_le_nat_alt) arith

lemma digits_takeWhile: "c \<in> set (takeWhile is_digit t) \<Longrightarrow> digit_value c < 10"
  by (auto dest: set_takeWhileD intro: digit_value_less)

lemma parse_int_part_digits: "parse_int_part t = Some (ip, r) \<Longrightarrow> d \<in> set ip \<Longrightarrow> d < 10"
  by (auto simp: parse_int_part_def digit_value_less digits_takeWhile
        split: list.splits if_splits)

lemma parse_fraction_digits: "parse_fraction t = Some (fp, r) \<Longrightarrow> d \<in> set fp \<Longrightarrow> d < 10"
  by (auto simp: parse_fraction_def digit_value_less digits_takeWhile
        split: list.splits if_splits)

lemma parse_number_normal: "parse_number t = Some (n, r) \<Longrightarrow> normal n"
  by (auto simp: parse_number_def Let_def split: option.splits prod.splits
        intro!: normal_number_of_literal dest: parse_int_part_digits parse_fraction_digits)

lemma parse_literal_decoded: "parse_literal t = Some (v, r) \<Longrightarrow> decoded v"
  by (auto simp: parse_literal_def split: if_splits)

lemma parse_decoded:
  "parse_value t = Some (v, r) \<Longrightarrow> decoded v"
  "parse_elements vs t = Some (v, r) \<Longrightarrow> \<forall>x \<in> set vs. decoded x \<Longrightarrow> decoded v"
  "parse_members ps t = Some (v, r) \<Longrightarrow> decoded (JObj ps) \<Longrightarrow> decoded v"
proof (induction t and vs t and ps t arbitrary: v r and v r and v r
        rule: parse_value_parse_elements_parse_members.induct)
  case (1 t)
  from "1.prems" show ?case
    apply (subst (asm) parse_value.simps)
    apply (auto split: list.splits if_splits simp: ordered_keys_def
             dest: parse_number_normal parse_literal_decoded "1.IH")
    done
next
  case (2 acc t)
  from "2.prems"(1) obtain a b where pv: "parse_value t = Some (a, b)"
    and len: "length b < length t"
    and rest: "(case skip_ws b of
                  [] \<Rightarrow> None
                | c # cs \<Rightarrow>
                    if c = 0x2C then parse_elements (acc @ [a]) cs
                    else if c = 0x5D then Some (JArr (acc @ [a]), cs)
                    else None) = Some (v, r)"
    by (subst (asm) parse_elements.simps) (auto split: option.splits if_splits)
  from "2.IH"(1) [OF pv] have a: "decoded a" .
  from rest obtain c cs where ws: "skip_ws b = c # cs"
    by (cases "skip_ws b") auto
  show ?case
  proof (cases "c = 0x2C")
    case True
    with rest ws have "parse_elements (acc @ [a]) cs = Some (v, r)" by simp
    from "2.IH"(2) [OF pv refl len ws True this] a "2.prems"(2) show ?thesis by simp
  next
    case False
    with rest ws a "2.prems"(2) show ?thesis by (auto split: if_splits)
  qed
next
  case (3 acc t)
  from "3.prems"(1) obtain q cs k r1 c1 r2 a r3 where ws: "skip_ws t = q # cs" and q: "\<not> q \<noteq> 0x22"
    and ps: "parse_string cs = Some (k, r1)" and ws1: "skip_ws r1 = c1 # r2"
    and c1: "\<not> c1 \<noteq> 0x3A" and pv: "parse_value r2 = Some (a, r3)"
    and len: "length r3 < length r2"
    and rest: "(case skip_ws r3 of
                  [] \<Rightarrow> None
                | c2 # r4 \<Rightarrow>
                    if c2 = 0x2C then parse_members (obj_set acc k a) r4
                    else if c2 = 0x7D then Some (JObj (obj_set acc k a), r4)
                    else None) = Some (v, r)"
    by (subst (asm) parse_members.simps) (auto split: option.splits if_splits list.splits)
  from "3.IH"(1) [OF ws q ps refl ws1 c1 pv] have a: "decoded a" .
  from "3.prems"(2) a have acc: "decoded (JObj (obj_set acc k a))"
    by (rule decoded_obj_set)
  from rest obtain c2 r4 where ws3: "skip_ws r3 = c2 # r4"
    by (cases "skip_ws r3") auto
  show ?case
  proof (cases "c2 = 0x2C")
    case True
    with rest ws3 have "parse_members (obj_set acc k a) r4 = Some (v, r)" by simp
    from "3.IH"(2) [OF ws q ps refl ws1 c1 pv refl len ws3 True this acc] show ?thesis .
  next
    case False
    with rest ws3 acc show ?thesis by (auto split: if_splits)
  qed
qed

lemma map_of_insert_new:
  "k \<notin> fst ` set ps \<Longrightarrow> map_of (insert_new ps k v) = (map_of ps)(k \<mapsto> v)"
  by (induction ps) (auto simp: fun_eq_iff)

lemma map_of_update_values:
  "map_of (map (\<lambda>(k', v'). if k' = k then (k', v) else (k', v')) ps) =
     (if k \<in> fst ` set ps then (map_of ps)(k \<mapsto> v) else map_of ps)"
  by (induction ps) (auto simp: fun_eq_iff)

lemma map_of_obj_set: "map_of (obj_set ps k v) = (map_of ps)(k \<mapsto> v)"
  by (simp add: obj_set_def map_of_insert_new map_of_update_values)

lemma map_of_foldl_obj_set:
  "map_of (foldl (\<lambda>ps (k, v). obj_set ps k v) base xs) = map_of base ++ map_of (rev xs)"
  by (induction xs arbitrary: base) (auto simp: map_of_obj_set fun_eq_iff map_add_def split: option.splits)


lemma map_of_rev_distinct: "distinct (map fst xs) \<Longrightarrow> map_of (rev xs) = map_of xs"
proof (induction xs)
  case Nil
  then show ?case by simp
next
  case (Cons x xs)
  then have "map_of xs (fst x) = None"
    by (simp add: map_of_eq_None_iff)
  with Cons show ?case
    by (cases x) (auto simp: fun_eq_iff map_add_def split: option.splits)
qed

lemma map_of_spread:
  "distinct (map fst (own_props source)) \<Longrightarrow>
   map_of (spread target source) = map_of target ++ map_of (own_props source)"
  by (simp add: spread_def map_of_foldl_obj_set map_of_rev_distinct)

text \<open>Decimal digits and the keys of array elements.\<close>

lemma int_of_digits_snoc: "int_of_digits (ds @ [d]) = 10 * int_of_digits ds + int d"
  by (simp add: int_of_digits_def)

lemma int_of_digits_of_int: "0 \<le> n \<Longrightarrow> int_of_digits (digits_of_int n) = n"
proof (induction n rule: digits_of_int.induct)
  case (1 n)
  show ?case
  proof (cases "n < 10")
    case True
    with "1.prems" show ?thesis
      by (subst digits_of_int.simps) (simp add: int_of_digits_def)
  next
    case False
    with "1.prems" "1.IH" have "int_of_digits (digits_of_int (n div 10)) = n div 10"
      by simp
    with False "1.prems" show ?thesis
      by (subst digits_of_int.simps) (simp add: int_of_digits_snoc)
  qed
qed

lemma digits_of_int_less: "0 \<le> n \<Longrightarrow> d \<in> set (digits_of_int n) \<Longrightarrow> d < 10"
proof (induction n rule: digits_of_int.induct)
  case (1 n)
  from "1.prems"(2) have "d \<in> set (if n < 10 then [nat n] else digits_of_int (n div 10) @ [nat (n mod 10)])"
    by (subst (asm) digits_of_int.simps)
  with "1.prems"(1) "1.IH" show ?case
    by (auto split: if_splits)
qed

lemma digit_value_char: "d < 10 \<Longrightarrow> digit_value (digit_char d) = d"
proof -
  assume "d < 10"
  then have "unat (of_nat (48 + d) :: codeunit) = 48 + d"
    by (subst unat_of_nat) simp
  then show ?thesis
    by (simp only: digit_value_def digit_char_def)
qed

lemma digit_values_string: "\<forall>d \<in> set ds. d < 10 \<Longrightarrow> map digit_value (digits_string ds) = ds"
  by (induction ds) (simp_all add: digits_string_def digit_value_char)

lemma index_key_value: "int_of_digits (map digit_value (index_key i)) = int i"
proof -
  have "\<forall>d \<in> set (digits_of_int (int i)). d < 10"
    using digits_of_int_less [of "int i"] by simp
  then show ?thesis
    by (simp add: index_key_def digit_values_string int_of_digits_of_int)
qed

lemma index_key_inj: "index_key i = index_key j \<Longrightarrow> i = j"
  by (metis index_key_value of_nat_eq_iff)

lemma keys_indexed: "map fst (indexed i vs) = map index_key [i ..< i + length vs]"
proof (induction vs arbitrary: i)
  case Nil
  then show ?case by simp
next
  case (Cons v vs)
  then show ?case by (simp add: upt_rec)
qed

lemma distinct_indexed: "distinct (map fst (indexed i vs))"
  by (simp add: keys_indexed distinct_map inj_on_def index_key_inj)

lemma decoded_own_props_distinct: "decoded v \<Longrightarrow> distinct (map fst (own_props v))"
  by (cases v) (simp_all add: ordered_keys_def distinct_indexed)

lemma indexed_values: "(k, x) \<in> set (indexed i vs) \<Longrightarrow> x \<in> set vs"
  by (induction vs arbitrary: i) auto

lemma decoded_own_props: "decoded v \<Longrightarrow> (k, x) \<in> set (own_props v) \<Longrightarrow> decoded x"
  by (cases v) (auto dest!: indexed_values)

lemma decoded_field: "decoded v \<Longrightarrow> map_of (own_props v) k = Some x \<Longrightarrow> decoded x"
  by (auto dest: map_of_SomeD decoded_own_props)

lemma JSON_parse_decoded: "JSON_parse t = Inr v \<Longrightarrow> decoded v"
  by (auto simp: JSON_parse_def split: option.splits if_splits dest: parse_decoded(1))

subsection \<open>The merged record\<close>

lemma spread_defaultConfig: "spread [] defaultConfig = own_props defaultConfig"
  by code_simp

lemma spread_defaultLicenseConfig: "spread [] defaultLicenseConfig = own_props defaultLicenseConfig"
  by code_simp

lemma license_default: "map_of (own_props defaultConfig) (js ''license'') = Some defaultLicenseConfig"
  by code_simp

lemma decoded_defaultLicenseConfig: "decoded defaultLicenseConfig"
  by code_simp

definition merged_license :: "jsvalue \<Rightarrow> jsvalue" where
  "merged_license doc =
     (case map_of (own_props doc) (js ''license'') of
        Some l \<Rightarrow> l
      | None \<Rightarrow> defaultLicenseConfig)"

lemma merge_defaults_eq:
  assumes "decoded doc"
  shows "merge_defaults doc =
           Inr (JObj (obj_set (spread (own_props defaultConfig) doc) (js ''license'')
                  (JObj (spread (own_props defaultLicenseConfig) (merged_license doc)))))"
    and "map_of (spread (own_props defaultConfig) doc) =
           map_of (own_props defaultConfig) ++ map_of (own_props doc)"
    and "map_of (spread (own_props defaultLicenseConfig) (merged_license doc)) =
           map_of (own_props defaultLicenseConfig) ++ map_of (own_props (merged_license doc))"
proof -
  from assms show m: "map_of (spread (own_props defaultConfig) doc) =
      map_of (own_props defaultConfig) ++ map_of (own_props doc)"
    by (simp add: map_of_spread decoded_own_props_distinct)
  then have "map_of (spread (own_props defaultConfig) doc) (js ''license'') =
      Some (merged_license doc)"
    by (simp add: map_add_def license_default merged_license_def split: option.split)
  then show "merge_defaults doc =
           Inr (JObj (obj_set (spread (own_props defaultConfig) doc) (js ''license'')
                  (JObj (spread (own_props defaultLicenseConfig) (merged_license doc)))))"
    by (simp add: merge_defaults_def spread_defaultConfig spread_defaultLicenseConfig)
  from assms have "decoded (merged_license doc)"
    by (auto simp: merged_license_def decoded_defaultLicenseConfig split: option.split
          dest: decoded_field)
  then show "map_of (spread (own_props defaultLicenseConfig) (merged_license doc)) =
           map_of (own_props defaultLicenseConfig) ++ map_of (own_props (merged_license doc))"
    by (simp add: map_of_spread decoded_own_props_distinct)
qed

lemma merged_field:
  assumes "decoded doc" "merge_defaults doc = Inr (JObj merged)" "k \<noteq> js ''license''"
  shows "map_of merged k =
           (case map_of (own_props doc) k of
              Some v \<Rightarrow> Some v
            | None \<Rightarrow> map_of (own_props defaultConfig) k)"
  using assms merge_defaults_eq(1,2) [of doc]
  by (auto simp: map_of_obj_set map_add_def)

subsection \<open>Resolving a decoded document\<close>

lemma validate_at:
  "validate c s =
     (fst (validate c (initial [] None)), appends (trace (snd (validate c (initial [] None)))) s)"
proof -
  from uniform_validate [of c] obtain r es where "\<And>s. validate c s = (r, appends es s)"
    unfolding uniform_def by blast
  from this [of s] this [of "initial [] None"] show ?thesis
    by (simp add: initial_def appends_def)
qed

lemma resolve_parsed:
  assumes "JSON_parse t = Inr doc" "Get doc (js ''binaryName'') = Inr b"
    and "merge_defaults doc = Inr m" "validate m (initial [] None) = (r, e)"
  shows "resolve t s =
           (r, appends ((if ToBoolean b then [] else [Warning binaryName_warning]) @ trace e) s)"
  using assms validate_at [of m "log_warning binaryName_warning s"] validate_at [of m s]
  by (simp add: resolve_def log_warning_def emit_def appends_def)

lemma getConfig_resolve: "getConfig s = resolve (fst (rawConfig s)) (snd (rawConfig s))"
  by (simp add: getConfig_def split: prod.split)

lemma merge_defaults_empty: "merge_defaults (JObj []) = Inr defaultConfig"
  by code_simp

lemma validate_defaultConfig: "validate defaultConfig (initial [] None) = (Return defaultConfig, initial [] None)"
  by code_simp

subsection \<open>The outcome of the validation\<close>

lemma Get_Inl: "Get v k = Inl e \<Longrightarrow> e = TypeError \<and> (v = JNull \<or> v = JUndefined)"
  by (cases v) auto

lemma Get_Inr: "v \<noteq> JNull \<Longrightarrow> v \<noteq> JUndefined \<Longrightarrow> \<exists>x. Get v k = Inr x"
  by (cases v) auto

lemma ToString_Inl:
  "ToString v = Inl e \<Longrightarrow> e = TypeError"
  "Array_join vs = Inl e \<Longrightarrow> e = TypeError"
  by (induction v and vs rule: ToString_Array_join.induct)
    (auto split: if_splits sum.splits)

lemma loose_equals_throws: "ToString p = Inl e \<Longrightarrow> loose_equals p x = Inl TypeError"
  by (cases p) (auto split: sum.splits if_splits dest: ToString_Inl)

lemma loose_equals_returns: "ToString p = Inr str \<Longrightarrow> \<exists>b. loose_equals p x = Inr b"
  by (cases p) (auto split: sum.splits)

definition addon_ok :: "jsvalue \<Rightarrow> bool" where
  "addon_ok addon \<longleftrightarrow>
     (case Get addon (js ''platform'') of
        Inl e \<Rightarrow> False
      | Inr platform \<Rightarrow> (case ToString platform of Inl e \<Rightarrow> False | Inr str \<Rightarrow> True))"

lemma fst_seq:
  "fst (seq f g s) =
     (case fst (f s) of
        Return u \<Rightarrow> fst (g (snd (f s)))
      | Exit c \<Rightarrow> Exit c
      | Throw e \<Rightarrow> Throw e)"
  by (auto simp: seq_def split: prod.splits outcome.splits)

lemma fst_require:
  "fst (require addon name k s) =
     (case Get addon (js name) of Inl e \<Rightarrow> Throw e | Inr v \<Rightarrow> Return ())"
  by (simp add: require_def split: sum.split)

lemma check_addon_outcome:
  assumes "Get addons k = Inr addon"
  shows "fst (check_addon addons k s) = (if addon_ok addon then Return () else Throw TypeError)"
proof (cases "Get addon (js ''platform'')")
  case (Inl e)
  then have "addon = JNull \<or> addon = JUndefined" "e = TypeError"
    by (auto dest: Get_Inl)
  then have "Get addon (js ''id'') = Inl TypeError"
    by auto
  with Inl assms show ?thesis
    by (simp add: check_addon_def fst_seq fst_require addon_ok_def)
next
  case (Inr p)
  then have get: "\<exists>x. Get addon n = Inr x" for n
    by (cases addon) auto
  show ?thesis
  proof (cases "ToString p")
    case (Inl e)
    with Inr assms get [of "js ''id''"] loose_equals_throws [OF Inl] show ?thesis
      by (auto simp: check_addon_def fst_seq fst_require addon_ok_def platform_is_def)
  next
    case str: (Inr str)
    from loose_equals_returns [OF str] obtain b1 b2 b3 where
      "loose_equals p (js ''url'') = Inr b1" "loose_equals p (js ''amo'') = Inr b2"
      "loose_equals p (js ''github'') = Inr b3"
      by blast
    with Inr str assms get [of "js ''id''"] get [of "js ''url''"] get [of "js ''amoId''"]
      get [of "js ''version''"] get [of "js ''repo''"] get [of "js ''fileGlob''"]
    show ?thesis
      by (auto simp: check_addon_def fst_seq fst_require addon_ok_def platform_is_def
            split: bool.splits)
  qed
qed

lemma check_addons_outcome:
  assumes "\<forall>(k, a) \<in> set ps. Get addons k = Inr a"
  shows "fst (check_addons addons (map fst ps) s) =
           (if \<forall>(k, a) \<in> set ps. addon_ok a then Return () else Throw TypeError)"
  using assms
proof (induction ps arbitrary: s)
  case Nil
  then show ?case by simp
next
  case (Cons p ps)
  obtain k a where p: "p = (k, a)" by (cases p)
  with Cons.prems have "Get addons k = Inr a" by simp
  from check_addon_outcome [OF this] Cons.IH Cons.prems show ?case
    by (simp add: p fst_seq)
qed

lemma own_props_Get:
  assumes "distinct (map fst (own_props v))" "(k, a) \<in> set (own_props v)"
  shows "Get v k = Inr a"
proof -
  from assms have "map_of (own_props v) k = Some a"
    by (rule map_of_is_SomeI)
  with assms(2) show ?thesis
    by (cases v) auto
qed

definition product_of :: "jsvalue \<Rightarrow> jsvalue option" where
  "product_of m =
     (case Get m (js ''version'') of
        Inl e \<Rightarrow> None
      | Inr version \<Rightarrow> (case Get version (js ''product'') of Inl e \<Rightarrow> None | Inr p \<Rightarrow> Some p))"

definition addons_of :: "jsvalue \<Rightarrow> (jsstring \<times> jsvalue) list" where
  "addons_of m = (case Get m (js ''addons'') of Inl e \<Rightarrow> [] | Inr addons \<Rightarrow> own_props addons)"

lemma validate_product_outcome:
  "fst (validate (JObj m) s) =
     (case product_of (JObj m) of
        None \<Rightarrow> Throw TypeError
      | Some p \<Rightarrow>
          if \<not> Array_includes validProducts p then
            (case ToString p of Inl e \<Rightarrow> Throw TypeError | Inr str \<Rightarrow> Exit 1)
          else
            (case fst (check_addons
                         (case map_of m (js ''addons'') of None \<Rightarrow> JUndefined | Some x \<Rightarrow> x)
                         (map fst (addons_of (JObj m))) s) of
               Return u \<Rightarrow> Return (JObj m)
             | Exit c \<Rightarrow> Exit c
             | Throw e \<Rightarrow> Throw e))"
  by (auto simp: validate_def product_of_def addons_of_def fst_seq
        split: sum.splits outcome.splits dest: Get_Inl ToString_Inl(1))


lemma decoded_foldl_obj_set:
  "decoded (JObj base) \<Longrightarrow> \<forall>(k, v) \<in> set xs. decoded v \<Longrightarrow>
   decoded (JObj (foldl (\<lambda>ps (k, v). obj_set ps k v) base xs))"
proof (induction xs arbitrary: base)
  case Nil
  then show ?case by simp
next
  case (Cons x xs)
  obtain k v where x: "x = (k, v)" by (cases x)
  with Cons.prems have "decoded (JObj (obj_set base k v))"
    by (intro decoded_obj_set) auto
  with Cons.IH [of "obj_set base k v"] Cons.prems x show ?case
    by simp
qed

lemma decoded_spread:
  "decoded (JObj target) \<Longrightarrow> decoded source \<Longrightarrow> decoded (JObj (spread target source))"
  unfolding spread_def
  by (rule decoded_foldl_obj_set) (auto dest: decoded_own_props)

lemma decoded_defaultConfig: "decoded defaultConfig"
  by code_simp

lemma decoded_merged_license: "decoded doc \<Longrightarrow> decoded (merged_license doc)"
  by (auto simp: merged_license_def decoded_defaultLicenseConfig split: option.split
        dest: decoded_field)

lemma decoded_merge_defaults:
  assumes "decoded doc" "merge_defaults doc = Inr m"
  shows "decoded m"
proof -
  have 1: "decoded (JObj (own_props defaultConfig))" "decoded (JObj (own_props defaultLicenseConfig))"
    using decoded_defaultConfig decoded_defaultLicenseConfig
    by (simp_all add: defaultConfig_def defaultLicenseConfig_def)
  from assms merge_defaults_eq(1) [OF assms(1)] show ?thesis
    by (auto intro!: decoded_obj_set decoded_spread 1 decoded_merged_license
          simp del: decoded.simps)
qed

text \<open>
  The merged record of a text: there is none when the text is not valid JSON, or when it
  is \<^verbatim>\<open>null\<close>, of which line 226 cannot read \<^verbatim>\<open>binaryName\<close>.
\<close>

definition merged_record :: "jsstring \<Rightarrow> jsvalue option" where
  "merged_record t =
     (case JSON_parse t of
        Inl e \<Rightarrow> None
      | Inr doc \<Rightarrow>
          (case Get doc (js ''binaryName'') of
             Inl e \<Rightarrow> None
           | Inr b \<Rightarrow> (case merge_defaults doc of Inl e \<Rightarrow> None | Inr m \<Rightarrow> Some m)))"

lemma JSON_parse_Inl: "JSON_parse t = Inl e \<Longrightarrow> e = SyntaxError"
  by (auto simp: JSON_parse_def split: option.splits if_splits)

lemma validate_outcome_cases:
  assumes "decoded (JObj m)"
  shows "fst (validate (JObj m) s) =
     (case product_of (JObj m) of
        None \<Rightarrow> Throw TypeError
      | Some p \<Rightarrow>
          if \<not> Array_includes validProducts p then
            (case ToString p of Inl e \<Rightarrow> Throw TypeError | Inr str \<Rightarrow> Exit 1)
          else if \<forall>(k, a) \<in> set (addons_of (JObj m)). addon_ok a then Return (JObj m)
          else Throw TypeError)"
proof -
  let ?addons = "case map_of m (js ''addons'') of None \<Rightarrow> JUndefined | Some x \<Rightarrow> x"
  have a: "addons_of (JObj m) = own_props ?addons"
    by (simp add: addons_of_def)
  have "distinct (map fst (own_props ?addons))"
  proof (cases "map_of m (js ''addons'')")
    case None
    then show ?thesis by simp
  next
    case (Some x)
    with assms have "decoded x"
      by (auto dest: map_of_SomeD)
    with Some show ?thesis
      by (simp add: decoded_own_props_distinct)
  qed
  then have "\<forall>(k, a) \<in> set (own_props ?addons). Get ?addons k = Inr a"
    by (auto dest: own_props_Get)
  from check_addons_outcome [OF this] show ?thesis
    by (simp add: validate_product_outcome a split: option.split)
qed

lemma resolve_cases:
  "fst (resolve t s) =
     (case JSON_parse t of
        Inl e \<Rightarrow> Exit 1
      | Inr doc \<Rightarrow>
          (case merged_record t of
             None \<Rightarrow> Throw TypeError
           | Some m \<Rightarrow>
               (case product_of m of
                  None \<Rightarrow> Throw TypeError
                | Some p \<Rightarrow>
                    if \<not> Array_includes validProducts p then
                      (case ToString p of Inl e \<Rightarrow> Throw TypeError | Inr str \<Rightarrow> Exit 1)
                    else if \<forall>(k, a) \<in> set (addons_of m). addon_ok a then Return m
                    else Throw TypeError)))"
proof (cases "JSON_parse t")
  case (Inl e)
  then show ?thesis by (simp add: resolve_def)
next
  case doc: (Inr doc)
  then have d: "decoded doc" by (rule JSON_parse_decoded)
  show ?thesis
  proof (cases "Get doc (js ''binaryName'')")
    case (Inl e)
    with doc show ?thesis
      by (auto simp: resolve_def merged_record_def dest: Get_Inl)
  next
    case (Inr b)
    from merge_defaults_eq(1) [OF d] obtain m where m: "merge_defaults doc = Inr (JObj m)"
      by blast
    with d have "decoded (JObj m)" by (rule decoded_merge_defaults)
    from validate_outcome_cases [OF this] doc Inr m show ?thesis
      by (simp add: resolve_def merged_record_def Let_def)
  qed
qed

subsection \<open>Merging a merged record again\<close>

text \<open>
  An object is its properties with index keys, in ascending order, followed by the others
  in the order of their creation. On the second part \<^verbatim>\<open>CreateDataProperty\<close> updates in
  place or appends.
\<close>

definition is_index :: "jsstring \<Rightarrow> bool" where
  "is_index k \<longleftrightarrow> array_index k \<noteq> None"

definition upd_app :: "(jsstring \<times> jsvalue) list \<Rightarrow> jsstring \<Rightarrow> jsvalue \<Rightarrow> (jsstring \<times> jsvalue) list" where
  "upd_app ps k v =
     (if k \<in> fst ` set ps then map (\<lambda>(k', v'). if k' = k then (k', v) else (k', v')) ps
      else ps @ [(k, v)])"

lemma comes_before_index: "comes_before k k' \<Longrightarrow> is_index k"
  by (auto simp: comes_before_def is_index_def split: option.splits)

lemma comes_before_named: "is_index k \<Longrightarrow> \<not> is_index k' \<Longrightarrow> comes_before k k'"
  by (auto simp: comes_before_def is_index_def split: option.splits)

lemma insert_new_named: "\<not> is_index k \<Longrightarrow> insert_new ps k v = ps @ [(k, v)]"
  by (induction ps) (auto dest: comes_before_index)

lemma insert_new_index:
  "\<forall>i \<in> fst ` set I. \<not> comes_before k i \<Longrightarrow> \<forall>n \<in> fst ` set N. comes_before k n \<Longrightarrow>
   insert_new (I @ N) k v = I @ (k, v) # N"
proof (induction I)
  case Nil
  then show ?case by (cases N) auto
next
  case (Cons p I)
  then show ?case by (cases p) auto
qed

lemma obj_set_named:
  assumes "\<not> is_index k" "\<forall>i \<in> fst ` set I. is_index i"
  shows "obj_set (I @ N) k v = I @ upd_app N k v"
proof -
  from assms have k: "k \<notin> fst ` set I" by auto
  then have "map (\<lambda>(k', v'). if k' = k then (k', v) else (k', v')) I = I"
    by (induction I) auto
  with k assms(1) show ?thesis
    by (auto simp: obj_set_def upd_app_def insert_new_named)
qed

lemma obj_set_index:
  assumes "is_index k" "k \<notin> fst ` set I" "\<forall>i \<in> fst ` set I. \<not> comes_before k i"
    "\<forall>n \<in> fst ` set N. \<not> is_index n"
  shows "obj_set (I @ N) k v = (I @ [(k, v)]) @ N"
proof -
  from assms(1,4) have "k \<notin> fst ` set N" by auto
  moreover from assms(1,4) have "\<forall>n \<in> fst ` set N. comes_before k n"
    by (auto intro: comes_before_named)
  ultimately show ?thesis
    using assms(2,3) by (simp add: obj_set_def insert_new_index image_Un)
qed

lemma foldl_obj_set_index:
  assumes "\<forall>n \<in> fst ` set N. \<not> is_index n"
    and "\<forall>k \<in> fst ` set J. is_index k"
    and "ordered_keys (map fst (I @ J))"
  shows "foldl (\<lambda>ps (k, v). obj_set ps k v) (I @ N) J = (I @ J) @ N"
  using assms(2,3)
proof (induction J arbitrary: I)
  case Nil
  then show ?case by simp
next
  case (Cons p J)
  obtain k v where p: "p = (k, v)" by (cases p)
  from Cons.prems p have k: "is_index k" "k \<notin> fst ` set I" "\<forall>i \<in> fst ` set I. \<not> comes_before k i"
    by (auto simp: ordered_keys_def sorted_wrt_append)
  from Cons.prems p have "ordered_keys (map fst ((I @ [(k, v)]) @ J))"
    by simp
  with Cons.IH [of "I @ [(k, v)]"] Cons.prems(1) obj_set_index [OF k assms(1), of v] show ?case
    by (simp add: p)
qed

lemma foldl_obj_set_named:
  assumes "\<forall>i \<in> fst ` set I. is_index i" "\<forall>k \<in> fst ` set X. \<not> is_index k"
  shows "foldl (\<lambda>ps (k, v). obj_set ps k v) (I @ N) X = I @ foldl (\<lambda>ps (k, v). upd_app ps k v) N X"
  using assms(2)
proof (induction X arbitrary: N)
  case Nil
  then show ?case by simp
next
  case (Cons p X)
  then show ?case
    by (cases p) (simp add: obj_set_named [OF _ assms(1)])
qed

text \<open>The properties of a decoded value: index keys first.\<close>

lemma ordered_keys_split:
  assumes "ordered_keys (map fst X)"
  shows "\<exists>I N. X = I @ N \<and> (\<forall>i \<in> fst ` set I. is_index i) \<and> (\<forall>n \<in> fst ` set N. \<not> is_index n)"
proof -
  let ?I = "takeWhile (\<lambda>p. is_index (fst p)) X"
  let ?N = "dropWhile (\<lambda>p. is_index (fst p)) X"
  have "\<forall>n \<in> fst ` set ?N. \<not> is_index n"
  proof (cases "?N")
    case Nil
    show ?thesis unfolding Nil by simp
  next
    case (Cons p N')
    then have p: "\<not> is_index (fst p)"
      using hd_dropWhile [of "\<lambda>p. is_index (fst p)" X] by auto
    from assms have "sorted_wrt (\<lambda>a b. \<not> comes_before b a) (map fst (?I @ ?N))"
      by (simp add: ordered_keys_def)
    then have "\<forall>q \<in> set N'. \<not> comes_before (fst q) (fst p)"
      by (simp add: sorted_wrt_append Cons)
    with p have "\<forall>q \<in> set N'. \<not> is_index (fst q)"
      by (auto dest: comes_before_named)
    with p Cons show ?thesis by auto
  qed
  moreover have "\<forall>i \<in> fst ` set ?I. is_index i"
    by (auto dest: set_takeWhileD)
  moreover have "X = ?I @ ?N" by simp
  ultimately show ?thesis by blast
qed


lemma keys_upd_app:
  "map fst (upd_app ps k v) = (if k \<in> fst ` set ps then map fst ps else map fst ps @ [k])"
  by (auto simp: upd_app_def split: prod.split)

lemma keys_foldl_upd_app:
  "distinct (map fst B) \<Longrightarrow>
   \<exists>ks. map fst (foldl (\<lambda>ps (k, v). upd_app ps k v) B X) = map fst B @ ks
        \<and> distinct (map fst B @ ks)"
proof (induction X arbitrary: B)
  case Nil
  then show ?case by simp
next
  case (Cons p X)
  obtain k v where p: "p = (k, v)" by (cases p)
  from Cons.prems have "distinct (map fst (upd_app B k v))"
    by (simp add: keys_upd_app)
  from Cons.IH [OF this] show ?case
    by (auto simp: p keys_upd_app split: if_splits)
qed

lemma update_absent:
  "k \<notin> fst ` set P \<Longrightarrow> map (\<lambda>(k', w). if k' = k then (k', v) else (k', w)) P = P"
  by (induction P) auto

lemma keys_upd_app_subset: "fst ` set (upd_app B k v) \<subseteq> insert k (fst ` set B)"
  by (auto simp: upd_app_def split: if_splits)

lemma foldl_upd_app_present:
  "distinct (map fst (P @ Q)) \<Longrightarrow> map fst Q' = map fst Q \<Longrightarrow>
   foldl (\<lambda>ps (k, v). upd_app ps k v) (P @ Q) Q' = P @ Q'"
proof (induction Q' arbitrary: P Q)
  case Nil
  then show ?case by simp
next
  case (Cons p' Q')
  obtain k v' where p': "p' = (k, v')" by (cases p')
  with Cons.prems(2) obtain v Q0 where Q: "Q = (k, v) # Q0" "map fst Q' = map fst Q0"
    by (cases Q) auto
  from Cons.prems(1) Q have k: "k \<notin> fst ` set P" "k \<notin> fst ` set Q0"
    by auto
  then have "upd_app (P @ Q) k v' = (P @ [(k, v')]) @ Q0"
    by (simp add: upd_app_def Q update_absent)
  moreover from Cons.prems(1) Q have "distinct (map fst ((P @ [(k, v')]) @ Q0))"
    by auto
  ultimately show ?case
    using Cons.IH [of "P @ [(k, v')]" Q0] Q(2) by (simp add: p')
qed

lemma foldl_upd_app_new:
  "distinct (map fst (P @ Y)) \<Longrightarrow> foldl (\<lambda>ps (k, v). upd_app ps k v) P Y = P @ Y"
proof (induction Y arbitrary: P)
  case Nil
  then show ?case by simp
next
  case (Cons p Y)
  obtain k v where p: "p = (k, v)" by (cases p)
  with Cons.prems have "upd_app P k v = P @ [(k, v)]"
    by (auto simp: upd_app_def)
  with Cons.IH [of "P @ [(k, v)]"] Cons.prems p show ?case
    by simp
qed

lemma foldl_upd_app_same:
  assumes "distinct (map fst Y)" "map fst Y = map fst B @ ks"
  shows "foldl (\<lambda>ps (k, v). upd_app ps k v) B Y = Y"
proof -
  let ?Y1 = "take (length B) Y" and ?Y2 = "drop (length B) Y"
  from assms(2) have 1: "map fst ?Y1 = map fst B"
    by (simp add: take_map [symmetric])
  from assms have "distinct (map fst ([] @ B))"
    by simp
  from foldl_upd_app_present [OF this 1] have "foldl (\<lambda>ps (k, v). upd_app ps k v) B ?Y1 = ?Y1"
    by simp
  moreover from assms(1) have "foldl (\<lambda>ps (k, v). upd_app ps k v) ?Y1 ?Y2 = ?Y1 @ ?Y2"
    by (intro foldl_upd_app_new) simp
  ultimately have "foldl (\<lambda>ps (k, v). upd_app ps k v) B (?Y1 @ ?Y2) = ?Y1 @ ?Y2"
    by (simp only: foldl_append)
  then show ?thesis
    by simp
qed

lemma refold:
  assumes "\<forall>k \<in> fst ` set B. \<not> is_index k"
    and "\<forall>i \<in> fst ` set I. is_index i" "\<forall>n \<in> fst ` set N. \<not> is_index n"
    and "ordered_keys (map fst (I @ N))" "map fst N = map fst B @ ks"
  shows "foldl (\<lambda>ps (k, v). obj_set ps k v) B (I @ N) = I @ N"
proof -
  from assms(4) have "ordered_keys (map fst ([] @ I))" "distinct (map fst N)"
    by (auto simp: ordered_keys_def sorted_wrt_append)
  with foldl_obj_set_index [OF assms(1,2), of "[]"] foldl_obj_set_named [OF assms(2,3), of B]
    foldl_upd_app_same [OF _ assms(5)]
  show ?thesis by simp
qed

lemma keys_foldl_upd_app_subset:
  "k \<in> fst ` set (foldl (\<lambda>ps (k, v). upd_app ps k v) B N) \<Longrightarrow>
   k \<in> fst ` set B \<or> k \<in> fst ` set N"
proof (induction N arbitrary: B)
  case Nil
  then show ?case by simp
next
  case (Cons p N)
  obtain k' v where p: "p = (k', v)" by (cases p)
  from Cons.prems have "k \<in> fst ` set (foldl (\<lambda>ps (k, v). upd_app ps k v) (upd_app B k' v) N)"
    by (simp add: p)
  from Cons.IH [OF this] have "k \<in> fst ` set (upd_app B k' v) \<or> k \<in> fst ` set N" .
  then show ?case
  proof
    assume "k \<in> fst ` set (upd_app B k' v)"
    with keys_upd_app_subset [of B k' v] have "k = k' \<or> k \<in> fst ` set B"
      by blast
    then show ?thesis by (auto simp: p)
  next
    assume "k \<in> fst ` set N"
    then show ?thesis by simp
  qed
qed

lemma fold_shape:
  assumes "\<forall>k \<in> fst ` set B. \<not> is_index k" "distinct (map fst B)" "ordered_keys (map fst X)"
  shows "\<exists>I N ks. foldl (\<lambda>ps (k, v). obj_set ps k v) B X = I @ N
           \<and> (\<forall>i \<in> fst ` set I. is_index i) \<and> (\<forall>n \<in> fst ` set N. \<not> is_index n)
           \<and> map fst N = map fst B @ ks"
proof -
  from ordered_keys_split [OF assms(3)] obtain I N where
    X: "X = I @ N" "\<forall>i \<in> fst ` set I. is_index i" "\<forall>n \<in> fst ` set N. \<not> is_index n"
    by blast
  let ?N = "foldl (\<lambda>ps (k, v). upd_app ps k v) B N"
  from assms(3) X(1) have "ordered_keys (map fst ([] @ I))"
    by (auto simp: ordered_keys_def sorted_wrt_append)
  with foldl_obj_set_index [OF assms(1) X(2), of "[]"] foldl_obj_set_named [OF X(2,3), of B]
  have 1: "foldl (\<lambda>ps (k, v). obj_set ps k v) B X = I @ ?N"
    by (simp add: X(1))
  from keys_foldl_upd_app [OF assms(2), of N] obtain ks where
    2: "map fst ?N = map fst B @ ks" by blast
  have 3: "\<forall>n \<in> fst ` set ?N. \<not> is_index n"
  proof
    fix n
    assume "n \<in> fst ` set ?N"
    then have "n \<in> fst ` set B \<or> n \<in> fst ` set N"
      by (rule keys_foldl_upd_app_subset)
    with assms(1) X(3) show "\<not> is_index n"
      by blast
  qed
  show ?thesis
    by (intro exI conjI) (rule 1, rule X(2), rule 3, rule 2)
qed


text \<open>The keys of the elements of an array are index keys, in order.\<close>

lemma digits_of_int_not_Nil: "digits_of_int n \<noteq> []"
  by (subst digits_of_int.simps) simp

lemma digits_of_int_hd: "0 < n \<Longrightarrow> hd (digits_of_int n) \<noteq> 0"
proof (induction n rule: digits_of_int.induct)
  case (1 n)
  show ?case
  proof (cases "n < 10")
    case True
    with "1.prems" show ?thesis
      by (subst digits_of_int.simps) simp
  next
    case False
    with "1.IH" have "hd (digits_of_int (n div 10)) \<noteq> 0"
      by simp
    with False show ?thesis
      by (subst digits_of_int.simps) (simp add: digits_of_int_not_Nil)
  qed
qed

lemma digits_of_int_single: "n < 10 \<Longrightarrow> length (digits_of_int n) = 1"
  by (subst digits_of_int.simps) simp

lemma is_digit_digit_char: "d < 10 \<Longrightarrow> is_digit (digit_char d)"
proof -
  assume d: "d < 10"
  then have "unat (of_nat (48 + d) :: codeunit) = 48 + d"
    by (subst unat_of_nat) simp
  with d show ?thesis
    by (simp only: is_digit_def digit_char_def word_le_nat_alt) simp
qed

lemma digit_char_zero: "d < 10 \<Longrightarrow> digit_char d = 0x30 \<Longrightarrow> d = 0"
  using digit_value_char [of d] by (simp add: digit_value_def)

lemma array_index_index_key:
  assumes "int i < 4294967295"
  shows "array_index (index_key i) = Some (int i)"
proof -
  let ?ds = "digits_of_int (int i)"
  have less: "\<forall>d \<in> set ?ds. d < 10"
    using digits_of_int_less [of "int i"] by simp
  then have 1: "list_all is_digit (index_key i)"
    by (simp add: index_key_def digits_string_def list_all_iff is_digit_digit_char)
  have 2: "index_key i \<noteq> []"
    by (simp add: index_key_def digits_string_def digits_of_int_not_Nil)
  have 3: "hd (index_key i) \<noteq> 0x30 \<or> length (index_key i) = 1"
  proof (cases "i = 0")
    case True
    then show ?thesis
      by (simp add: index_key_def digits_string_def digits_of_int_single)
  next
    case False
    then have "hd ?ds \<noteq> 0" by (simp add: digits_of_int_hd)
    moreover have "hd ?ds < 10" using less digits_of_int_not_Nil [of "int i"] by simp
    moreover have "hd (index_key i) = digit_char (hd ?ds)"
      by (simp add: index_key_def digits_string_def hd_map digits_of_int_not_Nil)
    ultimately show ?thesis
      by (auto dest: digit_char_zero)
  qed
  from 1 2 3 assms show ?thesis
    by (simp add: array_index_def index_key_value)
qed

lemma array_index_Some: "array_index (index_key i) = Some j \<Longrightarrow> j = int i \<and> int i < 4294967295"
  by (auto simp: array_index_def index_key_value split: if_splits)

lemma not_comes_before_index_key: "i \<le> j \<Longrightarrow> \<not> comes_before (index_key j) (index_key i)"
proof
  assume ij: "i \<le> j" and c: "comes_before (index_key j) (index_key i)"
  then obtain x where x: "array_index (index_key j) = Some x"
    by (auto simp: comes_before_def split: option.splits)
  then have "x = int j" "int j < 4294967295"
    by (auto dest: array_index_Some)
  with ij have "array_index (index_key i) = Some (int i)"
    by (intro array_index_index_key) simp
  with c x \<open>x = int j\<close> ij show False
    by (simp add: comes_before_def)
qed

lemma ordered_indexed: "ordered_keys (map fst (indexed i vs))"
proof -
  have "sorted_wrt (<) [i ..< i + length vs]"
    by (rule sorted_wrt_upt)
  then have "sorted_wrt (\<lambda>x y. \<not> comes_before (index_key y) (index_key x)) [i ..< i + length vs]"
    by (rule sorted_wrt_mono_rel [rotated]) (simp add: not_comes_before_index_key)
  then have "sorted_wrt (\<lambda>a b. \<not> comes_before b a) (map index_key [i ..< i + length vs])"
    by (simp only: sorted_wrt_map)
  moreover have "distinct (map index_key [i ..< i + length vs])"
    by (simp add: distinct_map inj_on_def index_key_inj)
  ultimately show ?thesis
    by (simp only: ordered_keys_def keys_indexed)
qed

lemma decoded_own_props_ordered: "decoded v \<Longrightarrow> ordered_keys (map fst (own_props v))"
  by (cases v) (simp_all add: ordered_indexed ordered_keys_def [of "[]"])


lemma obj_set_same:
  "distinct (map fst ps) \<Longrightarrow> map_of ps k = Some v \<Longrightarrow> obj_set ps k v = ps"
proof -
  assume d: "distinct (map fst ps)" and m: "map_of ps k = Some v"
  then have "k \<in> fst ` set ps"
    by (auto dest: map_of_SomeD intro: rev_image_eqI)
  moreover from d m have "map (\<lambda>(k', v'). if k' = k then (k', v) else (k', v')) ps = ps"
  proof (induction ps)
    case Nil
    then show ?case by simp
  next
    case (Cons p ps)
    then show ?case
      by (cases p) (auto simp: update_absent split: if_splits)
  qed
  ultimately show ?thesis
    by (simp add: obj_set_def)
qed

lemma default_keys_named:
  "\<forall>k \<in> fst ` set (own_props defaultConfig). \<not> is_index k"
  "\<forall>k \<in> fst ` set (own_props defaultLicenseConfig). \<not> is_index k"
  "distinct (map fst (own_props defaultConfig))"
  "distinct (map fst (own_props defaultLicenseConfig))"
  "\<not> is_index (js ''license'')"
  "js ''license'' \<in> fst ` set (own_props defaultConfig)"
  by code_simp+

lemma spread_JObj: "spread B (JObj Y) = foldl (\<lambda>ps (k, v). obj_set ps k v) B Y"
  by (simp add: spread_def)

lemma merge_defaults_idem:
  assumes "decoded doc" "merge_defaults doc = Inr cfg"
  shows "merge_defaults cfg = Inr cfg"
proof -
  let ?D = "own_props defaultConfig" and ?DL = "own_props defaultLicenseConfig"
  let ?R = "spread ?D doc"
  let ?L = "spread ?DL (merged_license doc)"
  let ?C = "obj_set ?R (js ''license'') (JObj ?L)"
  from assms merge_defaults_eq(1) [OF assms(1)] have cfg: "cfg = JObj ?C"
    by simp
  from assms have dec: "decoded (JObj ?C)"
    unfolding cfg [symmetric] by (rule decoded_merge_defaults)
  then have ord: "ordered_keys (map fst ?C)"
    by simp
  \<comment> \<open>the shape of the merged record\<close>
  from fold_shape [OF default_keys_named(1,3) decoded_own_props_ordered [OF assms(1)]]
  obtain I N ks where R: "?R = I @ N" "\<forall>i \<in> fst ` set I. is_index i"
    "\<forall>n \<in> fst ` set N. \<not> is_index n" "map fst N = map fst ?D @ ks"
    unfolding spread_def by blast
  let ?N = "upd_app N (js ''license'') (JObj ?L)"
  from R(4) default_keys_named(6) have "js ''license'' \<in> fst ` set N"
    by (metis Un_iff list.set_map set_append)
  then have keys: "map fst ?N = map fst N"
    by (simp add: keys_upd_app)
  have C: "?C = I @ ?N"
    unfolding R(1) by (rule obj_set_named [OF default_keys_named(5) R(2)])
  from R(3) keys have named: "\<forall>n \<in> fst ` set ?N. \<not> is_index n"
    by (metis list.set_map)
  from ord keys R(4) have 1: "foldl (\<lambda>ps (k, v). obj_set ps k v) ?D (I @ ?N) = I @ ?N"
    by (intro refold [OF default_keys_named(1) R(2) named]) (simp_all add: C)
  \<comment> \<open>the shape of its license\<close>
  have "decoded (merged_license doc)"
    using assms(1) by (rule decoded_merged_license)
  from fold_shape [OF default_keys_named(2,4) decoded_own_props_ordered [OF this]]
  obtain I' N' ks' where L: "?L = I' @ N'" "\<forall>i \<in> fst ` set I'. is_index i"
    "\<forall>n \<in> fst ` set N'. \<not> is_index n" "map fst N' = map fst ?DL @ ks'"
    unfolding spread_def by blast
  have l: "map_of ?C (js ''license'') = Some (JObj ?L)"
    by (simp add: map_of_obj_set)
  then have "map_of (own_props (JObj ?C)) (js ''license'') = Some (JObj ?L)"
    by simp
  with dec have "decoded (JObj ?L)"
    by (rule decoded_field)
  then have "ordered_keys (map fst (I' @ N'))"
    by (simp add: L(1))
  from refold [OF default_keys_named(2) L(2,3) this L(4)]
  have 2: "foldl (\<lambda>ps (k, v). obj_set ps k v) ?DL ?L = ?L"
    by (simp add: L(1))
  \<comment> \<open>the second merge\<close>
  from 1 have "spread ?D (JObj ?C) = ?C"
    by (simp only: spread_JObj C)
  moreover from l have "merged_license (JObj ?C) = JObj ?L"
    by (simp add: merged_license_def)
  moreover from 2 have "spread ?DL (JObj ?L) = ?L"
    by (simp only: spread_JObj)
  moreover from ord l have "obj_set ?C (js ''license'') (JObj ?L) = ?C"
    by (intro obj_set_same) (simp_all add: ordered_keys_def)
  ultimately show ?thesis
    using merge_defaults_eq(1) [OF dec] by (simp add: cfg)
qed

subsection \<open>Reading back what \<^verbatim>\<open>JSON.stringify\<close> wrote\<close>

lemma hex_value_digits: "list_all (\<lambda>n. hex_value (hex_digit n) = Some n) [0 ..< 16]"
  by code_simp

lemma hex_value_digit: "n < 16 \<Longrightarrow> hex_value (hex_digit n) = Some n"
  using hex_value_digits by (simp add: list_all_iff)

lemma nibbles:
  "((u div 16 div 16 div 16 * 16 + u div 16 div 16 mod 16) * 16 + u div 16 mod 16) * 16 + u mod 16
     = (u::nat)"
  by simp

lemma hex4_unicode_escape:
  "hex4 (hex_digit (unat c div 4096)) (hex_digit (unat c div 256 mod 16))
     (hex_digit (unat c div 16 mod 16)) (hex_digit (unat (c::codeunit) mod 16)) = Some c"
proof -
  have "unat c < 65536"
    using unsigned_less [of c, where 'a = nat] by simp
  then have 1: "unat c div 4096 < 16" by simp
  have 2: "unat c div 4096 = unat c div 16 div 16 div 16" "unat c div 256 = unat c div 16 div 16"
    by (simp_all add: div_mult2_eq [symmetric])
  have 3: "of_nat (((unat c div 4096 * 16 + unat c div 256 mod 16) * 16 + unat c div 16 mod 16) * 16
            + unat c mod 16) = c"
    by (simp only: 2 nibbles) simp
  have "hex_value (hex_digit (unat c div 4096)) = Some (unat c div 4096)"
    "hex_value (hex_digit (unat c div 256 mod 16)) = Some (unat c div 256 mod 16)"
    "hex_value (hex_digit (unat c div 16 mod 16)) = Some (unat c div 16 mod 16)"
    "hex_value (hex_digit (unat c mod 16)) = Some (unat c mod 16)"
    using 1 by (simp_all add: hex_value_digit)
  then show ?thesis
    by (simp only: hex4_def prod.case option.case 3)
qed

lemma parse_string_escape:
  "parse_string (unicode_escape c @ t) = map_option (apfst ((#) c)) (parse_string t)"
  by (simp add: unicode_escape_def hex4_unicode_escape)

lemma surrogate_plain:
  "is_leading_surrogate c \<or> is_trailing_surrogate c \<Longrightarrow> c \<noteq> 0x22 \<and> c \<noteq> 0x5C \<and> \<not> c < 0x20"
  by (auto simp: is_leading_surrogate_def is_trailing_surrogate_def word_le_nat_alt word_less_nat_alt)

lemma parse_string_plain:
  "c \<noteq> 0x22 \<Longrightarrow> c \<noteq> 0x5C \<Longrightarrow> \<not> c < 0x20 \<Longrightarrow>
   parse_string (c # t) = map_option (apfst ((#) c)) (parse_string t)"
  by simp

lemma parse_string_quote_chars:
  "parse_string (quote_chars s @ 0x22 # rest) = Some (s, rest)"
proof (induction s rule: length_induct)
  case (1 s)
  show ?case
  proof (cases s)
    case Nil
    then show ?thesis by simp
  next
    case (Cons c cs)
    with 1 have IH: "parse_string (quote_chars cs @ 0x22 # rest) = Some (cs, rest)"
      by simp
    let ?short = "c = 0x08 \<or> c = 0x09 \<or> c = 0x0A \<or> c = 0x0C \<or> c = 0x0D \<or> c = 0x22 \<or> c = 0x5C"
    let ?pair = "\<exists>d ds. cs = d # ds \<and> is_trailing_surrogate d"
    consider (short) ?short
      | (control) "\<not> ?short" "c < 0x20"
      | (pair) "\<not> ?short" "\<not> c < 0x20" "is_leading_surrogate c" ?pair
      | (lone) "\<not> ?short" "\<not> c < 0x20" "is_leading_surrogate c" "\<not> ?pair"
      | (trailing) "\<not> ?short" "\<not> c < 0x20" "\<not> is_leading_surrogate c" "is_trailing_surrogate c"
      | (plain) "\<not> ?short" "\<not> c < 0x20" "\<not> is_leading_surrogate c" "\<not> is_trailing_surrogate c"
      by blast
    then show ?thesis
    proof cases
      case short
      then show ?thesis
        by (elim disjE) (simp_all add: Cons IH escape_value_def)
    next
      case control
      then have "quote_chars (c # cs) = unicode_escape c @ quote_chars cs"
        by simp
      then show ?thesis
        using IH by (simp add: Cons parse_string_escape del: quote_chars.simps parse_string.simps)
    next
      case pair
      then obtain d ds where cs: "cs = d # ds" and d: "is_trailing_surrogate d"
        by blast
      with 1 Cons have IHds: "parse_string (quote_chars ds @ 0x22 # rest) = Some (ds, rest)"
        by simp
      from pair cs d have "quote_chars (c # cs) = c # d # quote_chars ds"
        by simp
      moreover from surrogate_plain [of c] pair have "c \<noteq> 0x22" "c \<noteq> 0x5C" "\<not> c < 0x20"
        by simp_all
      moreover from surrogate_plain [of d] d have "d \<noteq> 0x22" "d \<noteq> 0x5C" "\<not> d < 0x20"
        by simp_all
      ultimately show ?thesis
        using IHds by (simp add: Cons cs del: quote_chars.simps)
    next
      case lone
      then have "quote_chars (c # cs) = unicode_escape c @ quote_chars cs"
        by (cases cs) simp_all
      then show ?thesis
        using IH by (simp add: Cons parse_string_escape del: quote_chars.simps parse_string.simps)
    next
      case trailing
      then have "quote_chars (c # cs) = unicode_escape c @ quote_chars cs"
        by simp
      then show ?thesis
        using IH by (simp add: Cons parse_string_escape del: quote_chars.simps parse_string.simps)
    next
      case plain
      then have "quote_chars (c # cs) = c # quote_chars cs"
        by simp
      moreover from plain have "c \<noteq> 0x22" "c \<noteq> 0x5C" "\<not> c < 0x20"
        by simp_all
      ultimately show ?thesis
        using IH by (simp add: Cons del: quote_chars.simps)
    qed
  qed
qed

lemma parse_string_QuoteJSONString:
  "QuoteJSONString s @ rest = 0x22 # t \<Longrightarrow> parse_string t = Some (s, rest)"
  by (auto simp: QuoteJSONString_def parse_string_quote_chars)


text \<open>Numbers.\<close>

lemma takeWhile_stop: "r = [] \<or> \<not> P (hd r) \<Longrightarrow> takeWhile P r = [] \<and> dropWhile P r = r"
  by (cases r) auto

lemma digits_string_digits: "\<forall>d \<in> set ds. d < 10 \<Longrightarrow> \<forall>c \<in> set (digits_string ds). is_digit c"
  by (auto simp: digits_string_def is_digit_digit_char)

lemma takeWhile_digits:
  assumes "\<forall>d \<in> set ds. d < 10" "r = [] \<or> \<not> is_digit (hd r)"
  shows "takeWhile is_digit (digits_string ds @ r) = digits_string ds"
    and "dropWhile is_digit (digits_string ds @ r) = r"
  using digits_string_digits [OF assms(1)] takeWhile_stop [of r is_digit] assms(2)
  by (simp_all add: takeWhile_append2 dropWhile_append2)

lemma digits_string_append: "digits_string (xs @ ys) = digits_string xs @ digits_string ys"
  by (simp add: digits_string_def)

lemma digits_string_zeros: "replicate m 0x30 = digits_string (replicate m 0)"
  by (simp add: digits_string_def digit_char_def)

lemma digits_string_Nil: "digits_string ds = [] \<longleftrightarrow> ds = []"
  by (simp add: digits_string_def)

lemma hd_digits_string: "ds \<noteq> [] \<Longrightarrow> hd (digits_string ds) = digit_char (hd ds)"
  by (simp add: digits_string_def hd_map)

lemma digit_char_nonzero: "d < 10 \<Longrightarrow> d \<noteq> 0 \<Longrightarrow> digit_char d \<noteq> 0x30"
  by (auto dest: digit_char_zero)

lemma parse_int_part_digits_string:
  assumes "ds \<noteq> []" "hd ds \<noteq> 0" "\<forall>d \<in> set ds. d < 10" "r = [] \<or> \<not> is_digit (hd r)"
  shows "parse_int_part (digits_string ds @ r) = Some (ds, r)"
proof -
  from assms(1) obtain d ds' where ds: "ds = d # ds'"
    by (cases ds) auto
  with assms have d: "digit_char d \<noteq> 0x30" "is_digit (digit_char d)"
    by (simp_all add: digit_char_nonzero is_digit_digit_char)
  have "digits_string ds @ r = digit_char d # (digits_string ds' @ r)"
    by (simp add: ds digits_string_def)
  with d takeWhile_digits [OF assms(3,4)] digit_values_string [OF assms(3)] show ?thesis
    by (simp add: parse_int_part_def)
qed

lemma parse_fraction_none:
  "r = [] \<or> hd r \<noteq> 0x2E \<Longrightarrow> parse_fraction r = Some ([], r)"
  by (cases r) (auto simp: parse_fraction_def)

lemma parse_fraction_digits_string:
  assumes "ds \<noteq> []" "\<forall>d \<in> set ds. d < 10" "r = [] \<or> \<not> is_digit (hd r)"
  shows "parse_fraction (0x2E # digits_string ds @ r) = Some (ds, r)"
  using takeWhile_digits [OF assms(2,3)] digit_values_string [OF assms(2)] assms(1)
  by (simp add: parse_fraction_def digits_string_Nil)

lemma parse_exponent_none:
  "r = [] \<or> (hd r \<noteq> 0x65 \<and> hd r \<noteq> 0x45) \<Longrightarrow> parse_exponent r = Some (0, r)"
  by (cases r) (auto simp: parse_exponent_def)

lemma parse_digits1_digits_of_int:
  assumes "0 \<le> e" "r = [] \<or> \<not> is_digit (hd r)"
  shows "parse_digits1 (digits_string (digits_of_int e) @ r) = Some (e, r)"
proof -
  have less: "\<forall>d \<in> set (digits_of_int e). d < 10"
    using digits_of_int_less [OF assms(1)] by simp
  from takeWhile_digits [OF less assms(2)] digit_values_string [OF less] assms(1) show ?thesis
    by (simp add: parse_digits1_def digits_string_Nil digits_of_int_not_Nil int_of_digits_of_int)
qed

lemma parse_exponent_string:
  assumes "r = [] \<or> \<not> is_digit (hd r)"
  shows "parse_exponent (0x65 # exponent_string e @ r) = Some (e, r)"
proof (cases "0 \<le> e")
  case True
  with parse_digits1_digits_of_int [OF True assms] show ?thesis
    by (simp add: parse_exponent_def exponent_string_def)
next
  case False
  then have "0 \<le> - e" by simp
  from parse_digits1_digits_of_int [OF this assms] False show ?thesis
    by (simp add: parse_exponent_def exponent_string_def)
qed


lemma int_of_digits_append:
  "int_of_digits (xs @ ys) = int_of_digits xs * 10 ^ length ys + int_of_digits ys"
proof (induction ys rule: rev_induct)
  case Nil
  show ?case by (simp add: int_of_digits_def)
next
  case (snoc y ys)
  have "int_of_digits (xs @ ys @ [y]) = 10 * int_of_digits (xs @ ys) + int y"
    using int_of_digits_snoc [of "xs @ ys" y] by simp
  with snoc show ?case
    by (simp add: int_of_digits_snoc algebra_simps)
qed

lemma int_of_digits_zeros: "int_of_digits (replicate a 0) = 0"
  by (induction a) (simp_all add: int_of_digits_def)

lemma int_of_digits_padded:
  "int_of_digits (replicate a 0 @ ds @ replicate b 0) = int_of_digits ds * 10 ^ b"
  by (simp add: int_of_digits_append int_of_digits_zeros)

text \<open>Zeros before and after the digits, and the place of the point, do not change the value.\<close>

lemma number_of_literal_decimal:
  assumes "ip @ fp = replicate a 0 @ ds @ replicate b 0"
    and "int (length ip) - int a + ex = n" "b = 0 \<or> int (length fp) \<le> ex"
  shows "number_of_literal neg ip fp ex = number_of_literal neg ds [] (n - int (length ds))"
proof -
  let ?E = "ex - int (length fp)"
  from assms(1) have "length (ip @ fp) = length (replicate a (0::nat) @ ds @ replicate b 0)"
    by simp
  then have "length ip + length fp = a + length ds + b"
    by simp
  with assms(2) have E: "n - int (length ds) = ?E + int b"
    by simp
  from assms(3) show ?thesis
  proof
    assume "b = 0"
    with E int_of_digits_padded [of a ds 0] show ?thesis
      by (simp add: number_of_literal_def assms(1))
  next
    assume "int (length fp) \<le> ex"
    then have "nat (?E + int b) = nat ?E + b" "nat (- ?E) = 0" "nat (- (?E + int b)) = 0"
      by (simp_all add: nat_add_distrib)
    then show ?thesis
      by (simp add: number_of_literal_def assms(1) int_of_digits_padded E power_add ac_simps
            del: of_nat_add)
  qed
qed

definition ends_number :: "jsstring \<Rightarrow> bool" where
  "ends_number r \<longleftrightarrow>
     r = [] \<or> (\<not> is_digit (hd r) \<and> hd r \<noteq> 0x2E \<and> hd r \<noteq> 0x65 \<and> hd r \<noteq> 0x45)"

lemma not_digits: "\<not> is_digit 0x2E" "\<not> is_digit 0x65" "\<not> is_digit 0x2D"
  by (simp_all add: is_digit_def)

lemma parse_magnitude:
  assumes "ds \<noteq> []" "hd ds \<noteq> 0" "\<forall>d \<in> set ds. d < 10" "ends_number r"
  shows "\<exists>ip t2 fp t3 ex.
           parse_int_part (magnitude_string ds n @ r) = Some (ip, t2)
         \<and> parse_fraction t2 = Some (fp, t3)
         \<and> parse_exponent t3 = Some (ex, r)
         \<and> number_of_literal neg ip fp ex = number_of_literal neg ds [] (n - int (length ds))"
proof -
  let ?k = "int (length ds)"
  from assms(4) have r: "r = [] \<or> \<not> is_digit (hd r)" "r = [] \<or> hd r \<noteq> 0x2E"
    "r = [] \<or> (hd r \<noteq> 0x65 \<and> hd r \<noteq> 0x45)"
    by (auto simp: ends_number_def)
  from assms(1) have k: "1 \<le> ?k"
    by (cases ds) auto
  consider (integer) "?k \<le> n" "n \<le> 21"
    | (point) "0 < n" "n < ?k" "n \<le> 21"
    | (small) "- 6 < n" "n \<le> 0"
    | (exp1) "21 < n \<or> n \<le> - 6" "length ds = 1"
    | (exp) "21 < n \<or> n \<le> - 6" "1 < length ds"
    using k by (cases "length ds = 1") arith+
  then show ?thesis
  proof cases
    case integer
    let ?ip = "ds @ replicate (nat (n - ?k)) 0"
    have form: "magnitude_string ds n @ r = digits_string ?ip @ r"
      using integer by (auto simp: magnitude_string_def digits_string_append digits_string_zeros)
    have "parse_int_part (digits_string ?ip @ r) = Some (?ip, r)"
      using assms(1,2,3) r(1) by (intro parse_int_part_digits_string) auto
    moreover have "number_of_literal neg ?ip [] 0
        = number_of_literal neg ds [] (n - int (length ds))"
      using integer by (intro number_of_literal_decimal [of _ _ 0 _ "nat (n - ?k)"]) simp_all
    ultimately show ?thesis
      using parse_fraction_none [OF r(2)] parse_exponent_none [OF r(3)] form by simp
  next
    case point
    then have n: "nat n < length ds" "0 < nat n" by simp_all
    let ?ip = "take (nat n) ds" and ?fp = "drop (nat n) ds"
    have form: "magnitude_string ds n @ r = digits_string ?ip @ 0x2E # digits_string ?fp @ r"
      using point by (auto simp: magnitude_string_def)
    have "?ip \<noteq> []" "hd ?ip \<noteq> 0" "\<forall>d \<in> set ?ip. d < 10" "?fp \<noteq> []" "\<forall>d \<in> set ?fp. d < 10"
      using n assms(1,2,3) by (auto dest: in_set_takeD in_set_dropD)
    then have "parse_int_part (digits_string ?ip @ 0x2E # digits_string ?fp @ r)
        = Some (?ip, 0x2E # digits_string ?fp @ r)"
      "parse_fraction (0x2E # digits_string ?fp @ r) = Some (?fp, r)"
      using r(1) not_digits(1)
      by (simp_all add: parse_int_part_digits_string parse_fraction_digits_string)
    moreover have "number_of_literal neg ?ip ?fp 0
        = number_of_literal neg ds [] (n - int (length ds))"
      using n by (intro number_of_literal_decimal [of _ _ 0 _ 0]) simp_all
    ultimately show ?thesis
      using parse_exponent_none [OF r(3)] form by simp
  next
    case small
    let ?fp = "replicate (nat (- n)) 0 @ ds"
    have form: "magnitude_string ds n @ r = 0x30 # 0x2E # digits_string ?fp @ r"
      using small k by (auto simp: magnitude_string_def digits_string_append digits_string_zeros)
    have "parse_int_part (0x30 # 0x2E # digits_string ?fp @ r) = Some ([0], 0x2E # digits_string ?fp @ r)"
      by (simp add: parse_int_part_def)
    moreover have "parse_fraction (0x2E # digits_string ?fp @ r) = Some (?fp, r)"
      using assms(1,3) r(1) by (intro parse_fraction_digits_string) auto
    moreover have "number_of_literal neg [0] ?fp 0
        = number_of_literal neg ds [] (n - int (length ds))"
      using small by (intro number_of_literal_decimal [of _ _ "Suc (nat (- n))" _ 0]) simp_all
    ultimately show ?thesis
      using parse_exponent_none [OF r(3)] form by simp
  next
    case exp1
    have form: "magnitude_string ds n @ r = digits_string ds @ 0x65 # exponent_string (n - 1) @ r"
      using exp1 by (auto simp: magnitude_string_def)
    have "parse_int_part (digits_string ds @ 0x65 # exponent_string (n - 1) @ r)
        = Some (ds, 0x65 # exponent_string (n - 1) @ r)"
      using assms(1,2,3) not_digits(2) by (simp add: parse_int_part_digits_string)
    moreover have "parse_fraction (0x65 # exponent_string (n - 1) @ r)
        = Some ([], 0x65 # exponent_string (n - 1) @ r)"
      by (simp add: parse_fraction_def)
    moreover have "number_of_literal neg ds [] (n - 1)
        = number_of_literal neg ds [] (n - int (length ds))"
      using exp1 by simp
    ultimately show ?thesis
      using parse_exponent_string [OF r(1)] form by simp
  next
    case exp
    then have k: "1 < length ds"
      by simp
    let ?ip = "take 1 ds" and ?fp = "drop 1 ds"
    have form: "magnitude_string ds n @ r =
        digits_string ?ip @ 0x2E # digits_string ?fp @ 0x65 # exponent_string (n - 1) @ r"
      using exp by (auto simp: magnitude_string_def)
    have "?ip \<noteq> []" "hd ?ip \<noteq> 0" "\<forall>d \<in> set ?ip. d < 10" "?fp \<noteq> []" "\<forall>d \<in> set ?fp. d < 10"
      using k assms(1,2,3) by (auto dest: in_set_takeD in_set_dropD)
    then have "parse_int_part (digits_string ?ip @ 0x2E # digits_string ?fp @ 0x65 # exponent_string (n - 1) @ r)
        = Some (?ip, 0x2E # digits_string ?fp @ 0x65 # exponent_string (n - 1) @ r)"
      "parse_fraction (0x2E # digits_string ?fp @ 0x65 # exponent_string (n - 1) @ r)
        = Some (?fp, 0x65 # exponent_string (n - 1) @ r)"
      using not_digits(1,2)
      by (simp_all add: parse_int_part_digits_string parse_fraction_digits_string)
    moreover have "number_of_literal neg ?ip ?fp (n - 1)
        = number_of_literal neg ds [] (n - int (length ds))"
      using k by (intro number_of_literal_decimal [of _ _ 0 _ 0]) simp_all
    ultimately show ?thesis
      using parse_exponent_string [OF r(1)] form by simp
  qed
qed

text \<open>
  The values that \<^verbatim>\<open>JSON.stringify\<close> writes without loss: no infinity, which it writes
  \<^verbatim>\<open>null\<close>, and no negative zero, which it writes \<^verbatim>\<open>0\<close>.
\<close>

fun exact_number :: "number \<Rightarrow> bool" where
  "exact_number (Infinity neg) = False"
| "exact_number (Finite neg m e) = (m \<noteq> 0 \<or> \<not> neg)"

fun exact :: "jsvalue \<Rightarrow> bool" where
  "exact (JNum n) = exact_number n"
| "exact (JArr vs) = (\<forall>v \<in> set vs. exact v)"
| "exact (JObj ps) = (\<forall>(k, v) \<in> set ps. exact v)"
| "exact v = True"

lemma parse_int_part_hd: "parse_int_part t = Some (ip, r) \<Longrightarrow> t \<noteq> [] \<and> is_digit (hd t)"
  by (auto simp: parse_int_part_def is_digit_def split: list.splits if_splits)

text \<open>
  The digits that \<^verbatim>\<open>Number::toString\<close> chooses. The search ends at the latest where the
  double is itself a multiple of \<open>10\<^sup>t\<close>: a double is a decimal, and reads as itself.
\<close>

lemma decimal_value:
  "real_of_int (a * 10 ^ nat k) / real_of_int (10 ^ nat (- k)) = real_of_int a * 10 powi k"
  by (cases "0 \<le> k") (simp_all add: power_int_def field_simps)

lemma trailing_zeros:
  assumes "xs \<noteq> []" "hd xs \<noteq> (0::nat)"
  shows "\<exists>z. xs = strip_zeros xs @ replicate z 0"
proof -
  let ?P = "\<lambda>d::nat. d = 0"
  from assms have "dropWhile ?P xs = xs"
    by (cases xs) auto
  then have strip: "strip_zeros xs = rev (dropWhile ?P (rev xs))"
    by (simp add: strip_zeros_def)
  have "\<forall>y \<in> set (takeWhile ?P (rev xs)). y = 0"
    by (auto dest: set_takeWhileD)
  then have "replicate (length (takeWhile ?P (rev xs))) 0 = takeWhile ?P (rev xs)"
    by (intro replicate_length_same) simp
  moreover have "xs = rev (dropWhile ?P (rev xs)) @ rev (takeWhile ?P (rev xs))"
    using takeWhile_dropWhile_id [of ?P "rev xs"] by (metis rev_append rev_rev_ident)
  moreover have "rev (replicate z (0::nat)) = replicate z 0" for z
    by simp
  ultimately have "xs = strip_zeros xs @ replicate (length (takeWhile ?P (rev xs))) 0"
    by (metis strip)
  then show ?thesis ..
qed

lemma decimal_digits_props:
  assumes "0 < s" "decimal_digits s t = (ds, n)"
  shows "ds \<noteq> []" "hd ds \<noteq> 0" "last ds \<noteq> 0" "\<forall>d \<in> set ds. d < 10"
proof -
  let ?xs = "digits_of_int s"
  from assms(2) have ds: "ds = strip_zeros ?xs"
    by (simp add: decimal_digits_def)
  from digits_of_int_hd [OF assms(1)] digits_of_int_not_Nil [of s]
  have xs: "?xs \<noteq> []" "hd ?xs \<noteq> 0"
    by simp_all
  from trailing_zeros [OF this] obtain z where z: "?xs = ds @ replicate z 0"
    by (auto simp: ds)
  show "ds \<noteq> []"
  proof
    assume "ds = []"
    with z xs show False
      by (cases z) simp_all
  qed
  with strip_zeros_normal [of ?xs] show "hd ds \<noteq> 0" "last ds \<noteq> 0"
    by (simp_all add: ds)
  from set_strip_zeros [of ?xs] digits_of_int_less [of s] assms(1) show "\<forall>d \<in> set ds. d < 10"
    by (auto simp: ds)
qed

lemma decimal_digits_value:
  assumes "0 < s" "decimal_digits s t = (ds, n)"
  shows "real_of_int (int_of_digits ds * 10 ^ nat (n - int (length ds)))
           / real_of_int (10 ^ nat (- (n - int (length ds)))) = real_of_int s * 10 powi t"
    and "0 < int_of_digits ds"
proof -
  let ?xs = "digits_of_int s"
  from assms(2) have ds: "ds = strip_zeros ?xs" and n: "n = t + int (length ?xs)"
    by (simp_all add: decimal_digits_def)
  from digits_of_int_hd [OF assms(1)] digits_of_int_not_Nil [of s]
  have "?xs \<noteq> []" "hd ?xs \<noteq> 0"
    by simp_all
  from trailing_zeros [OF this] obtain z where z: "?xs = ds @ replicate z 0"
    by (auto simp: ds)
  from assms(1) have "int_of_digits ?xs = s"
    by (simp add: int_of_digits_of_int)
  then have s: "s = int_of_digits ds * 10 ^ z"
    using int_of_digits_padded [of 0 ds z] by (simp add: z)
  with assms(1) int_of_digits_nonneg [of ds] show "0 < int_of_digits ds"
    by (cases "int_of_digits ds = 0") simp_all
  from z have "length ?xs = length ds + z"
    by (metis length_append length_replicate)
  with n have E: "n - int (length ds) = t + int z"
    by simp
  have "real_of_int (int_of_digits ds) * 10 powi (t + int z)
      = real_of_int (int_of_digits ds) * 10 ^ z * 10 powi t"
    by (simp add: power_int_add)
  then show "real_of_int (int_of_digits ds * 10 ^ nat (n - int (length ds)))
      / real_of_int (10 ^ nat (- (n - int (length ds)))) = real_of_int s * 10 powi t"
    by (simp only: E decimal_value) (simp add: s)
qed

lemma reads_as_exact:
  assumes "normal (Finite neg m e)" "0 < m" "0 < s"
    and "real_of_int s * 10 powi t = real_of_int m * 2 powi e"
  shows "reads_as m e s t"
proof -
  obtain ds n where d: "decimal_digits s t = (ds, n)"
    by (cases "decimal_digits s t")
  note v = decimal_digits_value [OF assms(3) d]
  from assms(1) have normal: "normal (Finite False m e)"
    by simp
  have a: "0 < int_of_digits ds * 10 ^ nat (n - int (length ds))"
    using v(2) by simp
  have b: "(0::int) < 10 ^ nat (- (n - int (length ds)))"
    by simp
  from v(1) assms(4) have "real_of_int (int_of_digits ds * 10 ^ nat (n - int (length ds)))
      / real_of_int (10 ^ nat (- (n - int (length ds)))) = real_of_int m * 2 powi e"
    by (simp only:)
  from round_double_exact [OF normal assms(2) a b this] assms(3) d show ?thesis
    by (simp add: reads_as_def number_of_literal_def)
qed

lemma nearest_at_exact:
  assumes "normal (Finite neg m e)" "0 < m"
  shows "nearest_at m e (min e 0) \<noteq> None"
proof -
  let ?t = "min e 0"
  let ?num = "m * 2 ^ nat e * 10 ^ nat (- ?t)" and ?den = "(2::int) ^ nat (- e) * 10 ^ nat ?t"
  have "\<exists>s. 0 < s \<and> ?num div ?den = s \<and> real_of_int s * 10 powi ?t = real_of_int m * 2 powi e"
  proof (cases "0 \<le> e")
    case True
    with assms(2) show ?thesis
      by (simp add: power_int_def)
  next
    case False
    define k where "k = nat (- e)"
    from False have e: "e = - int k" "min e 0 = - int k" "nat e = 0" "nat (- e) = k"
      by (simp_all add: k_def)
    have ten: "(10::int) ^ k = 2 ^ k * 5 ^ k"
      by (simp add: power_mult_distrib [symmetric])
    have "(m * 10 ^ k) div 2 ^ k = m * 5 ^ k"
      by (simp add: ten)
    moreover have "real_of_int (m * 5 ^ k) * 10 powi (- int k) = real_of_int m * 2 powi (- int k)"
    proof -
      have "(10::real) ^ k = 2 ^ k * 5 ^ k"
        by (simp add: power_mult_distrib [symmetric])
      then show ?thesis
        by (simp add: power_int_minus field_simps)
    qed
    ultimately show ?thesis
      using assms(2) by (simp add: e)
  qed
  then obtain s where "0 < s" "?num div ?den = s"
    "real_of_int s * 10 powi ?t = real_of_int m * 2 powi e"
    by blast
  with reads_as_exact [OF assms, of s ?t] have "reads_as m e (?num div ?den) ?t"
    by simp
  then show ?thesis
    by (simp add: nearest_at_def Let_def)
qed

lemma nearest_at_reads: "nearest_at m e t = Some s \<Longrightarrow> reads_as m e s t"
  by (auto simp: nearest_at_def Let_def split: if_splits)

lemma shortest_from_reads:
  "shortest_from m e t = Some p \<Longrightarrow> \<exists>s t'. p = decimal_digits s t' \<and> reads_as m e s t'"
proof (induction m e t rule: shortest_from.induct)
  case (1 m e t)
  from "1.prems" have t: "\<not> t < min e 0"
    by (subst (asm) shortest_from.simps) (simp split: if_splits)
  show ?case
  proof (cases "nearest_at m e t")
    case None
    with "1.prems" t have "shortest_from m e (t - 1) = Some p"
      by (subst (asm) shortest_from.simps) (auto split: if_splits)
    from "1.IH" [OF t None this] show ?thesis .
  next
    case (Some s)
    with "1.prems" t have "p = decimal_digits s t"
      by (subst (asm) shortest_from.simps) (auto split: if_splits)
    with nearest_at_reads [OF Some] show ?thesis
      by blast
  qed
qed

lemma shortest_from_exists:
  "nearest_at m e (min e 0) \<noteq> None \<Longrightarrow> min e 0 \<le> t \<Longrightarrow> shortest_from m e t \<noteq> None"
proof (induction m e t rule: shortest_from.induct)
  case (1 m e t)
  from "1.prems"(2) have t: "\<not> t < min e 0"
    by arith
  show ?case
  proof (cases "nearest_at m e t")
    case None
    with "1.prems" have "min e 0 \<le> t - 1"
      by (cases "t = min e 0") auto
    from "1.IH" [OF t None "1.prems"(1) this] None t show ?thesis
      by (subst shortest_from.simps) (auto split: if_splits)
  next
    case (Some s)
    with t show ?thesis
      by (subst shortest_from.simps) (auto split: if_splits)
  qed
qed

lemma shortest_digits_reads:
  assumes "normal (Finite neg m e)" "m \<noteq> 0"
  shows "\<exists>s t. shortest_digits m e = decimal_digits s t \<and> reads_as m e s t"
proof -
  from assms have m: "0 < m"
    by simp
  let ?t = "int (length (digits_of_int (m * 2 ^ nat e div 2 ^ nat (- e))))"
  have "min e 0 \<le> ?t"
    by simp
  from shortest_from_exists [OF nearest_at_exact [OF assms(1) m] this]
  obtain p where p: "shortest_from m e ?t = Some p"
    by blast
  from shortest_from_reads [OF this] p show ?thesis
    by (simp add: shortest_digits_def)
qed

lemma pack_sign: "pack False m e = Finite False m' e' \<Longrightarrow> pack neg m e = Finite neg m' e'"
  by (simp add: pack_def split: if_splits)

lemma round_double_sign:
  assumes "round_double False a b = Finite False m e"
  shows "round_double neg a b = Finite neg m e"
proof (cases "a = 0")
  case True
  with assms show ?thesis
    by (simp add: round_double_def)
next
  case False
  define x where "x = max (ulp_exponent a b) (- 1074)"
  define y where "y = round_half_even (a * 2 ^ nat (- x)) (b * 2 ^ nat x)"
  from False have "round_double neg' a b = pack neg' y x" for neg'
    by (simp add: round_double_def Let_def x_def y_def)
  with assms pack_sign [of y x m e neg] show ?thesis
    by simp
qed

lemma number_of_literal_sign:
  "number_of_literal False ip fp ex = Finite False m e \<Longrightarrow>
   number_of_literal neg ip fp ex = Finite neg m e"
  unfolding number_of_literal_def Let_def by (rule round_double_sign)

lemma parse_number_toString:
  assumes "normal (Finite neg m e)" "exact_number (Finite neg m e)" "ends_number r"
  shows "parse_number (Number_toString (Finite neg m e) @ r) = Some (Finite neg m e, r)"
proof (cases "m = 0")
  case True
  with assms(1,2) have n: "e = 0" "\<not> neg"
    by simp_all
  from assms(3) have "parse_fraction r = Some ([], r)" "parse_exponent r = Some (0, r)"
    by (auto simp: ends_number_def intro: parse_fraction_none parse_exponent_none)
  moreover have "number_of_literal False [0] [] 0 = Finite False 0 0"
    by (simp add: number_of_literal_def round_double_def int_of_digits_def)
  ultimately show ?thesis
    using True n by (simp add: parse_number_def parse_int_part_def js_def)
next
  case False
  from shortest_digits_reads [OF assms(1) False] obtain s t where
    st: "shortest_digits m e = decimal_digits s t" "reads_as m e s t"
    by blast
  obtain ds n where d: "decimal_digits s t = (ds, n)"
    by (cases "decimal_digits s t")
  from st(2) d have s: "0 < s"
    and reads: "number_of_literal False ds [] (n - int (length ds)) = Finite False m e"
    by (simp_all add: reads_as_def)
  note props = decimal_digits_props [OF s d]
  from parse_magnitude [OF props(1,2,4) assms(3), of n neg] obtain ip t2 fp t3 ex where
    p: "parse_int_part (magnitude_string ds n @ r) = Some (ip, t2)"
      "parse_fraction t2 = Some (fp, t3)" "parse_exponent t3 = Some (ex, r)"
      "number_of_literal neg ip fp ex = number_of_literal neg ds [] (n - int (length ds))"
    by blast
  from p(4) number_of_literal_sign [OF reads, of neg]
  have lit: "number_of_literal neg ip fp ex = Finite neg m e"
    by simp
  from parse_int_part_hd [OF p(1)] have "magnitude_string ds n @ r \<noteq> []"
    "hd (magnitude_string ds n @ r) \<noteq> 0x2D"
    by (auto simp: is_digit_def)
  with p(1-3) lit False show ?thesis
    by (cases neg) (simp_all add: parse_number_def st(1) d)
qed

lemma magnitude_string_hd:
  assumes "ds \<noteq> []" "hd ds \<noteq> 0" "\<forall>d \<in> set ds. d < 10"
  shows "magnitude_string ds n \<noteq> [] \<and> is_digit (hd (magnitude_string ds n))"
proof -
  from parse_magnitude [OF assms, of "[]" n False] obtain ip t2 where
    "parse_int_part (magnitude_string ds n) = Some (ip, t2)"
    by (auto simp: ends_number_def)
  from parse_int_part_hd [OF this] show ?thesis .
qed

lemma Number_toString_hd:
  assumes "normal (Finite neg m e)"
  shows "Number_toString (Finite neg m e) \<noteq> []
       \<and> (hd (Number_toString (Finite neg m e)) = 0x2D
          \<or> is_digit (hd (Number_toString (Finite neg m e))))"
proof (cases "m = 0")
  case True
  then show ?thesis
    by (simp add: js_def is_digit_def)
next
  case False
  from shortest_digits_reads [OF assms False] obtain s t where
    st: "shortest_digits m e = decimal_digits s t" "reads_as m e s t"
    by blast
  obtain ds n where d: "decimal_digits s t = (ds, n)"
    by (cases "decimal_digits s t")
  from st(2) have "0 < s"
    by (simp add: reads_as_def)
  note props = decimal_digits_props [OF this d]
  from magnitude_string_hd [OF props(1,2,4), of n] False show ?thesis
    by (simp add: st(1) d)
qed

text \<open>White space, and the first character of a serialised value.\<close>

lemma skip_ws_ws: "list_all is_ws w \<Longrightarrow> skip_ws (w @ t) = skip_ws t"
  by (induction w) (simp_all add: skip_ws_def)

lemma skip_ws_plain: "\<not> is_ws c \<Longrightarrow> skip_ws (c # t) = c # t"
  by (simp add: skip_ws_def)

lemma skip_ws_Nil: "skip_ws [] = []"
  by (simp add: skip_ws_def)

lemma is_ws_indentation: "list_all is_ws (indentation level)"
  by (simp add: indentation_def is_ws_def list_all_iff)

lemma is_ws_line: "list_all is_ws (0x0A # indentation level)"
  by (simp add: is_ws_indentation) (simp add: is_ws_def)

lemma parse_value_ws: "list_all is_ws w \<Longrightarrow> parse_value (w @ t) = parse_value t"
  by (simp add: parse_value.simps [of "w @ t"] parse_value.simps [of t] skip_ws_ws)

definition opens_value :: "codeunit \<Rightarrow> bool" where
  "opens_value c \<longleftrightarrow> \<not> is_ws c \<and> c \<noteq> 0x5D \<and> c \<noteq> 0x7D"

lemma is_digit_opens: "is_digit c \<Longrightarrow> opens_value c"
  by (auto simp: is_digit_def opens_value_def is_ws_def)

lemma serialize_hd:
  assumes "decoded v"
  shows "\<exists>s. serialize level v = Some s \<and> s \<noteq> [] \<and> opens_value (hd s)"
proof (cases v)
  case (JNum x)
  show ?thesis
  proof (cases x)
    case (Finite neg m e)
    with assms JNum have "normal (Finite neg m e)" by simp
    from Number_toString_hd [OF this] is_digit_opens show ?thesis
      by (auto simp: JNum Finite opens_value_def is_ws_def simp del: Number_toString.simps)
  next
    case (Infinity neg)
    then show ?thesis
      by (simp add: JNum js_def opens_value_def is_ws_def)
  qed
qed (use assms in \<open>simp_all add: js_def opens_value_def is_ws_def QuoteJSONString_def\<close>)


text \<open>
  A serialised value is followed by a comma, by a line break or by nothing. \<open>reads_back\<close>
  says that the parser reads a value back from its serialisation, whatever follows.
\<close>

definition closes :: "jsstring \<Rightarrow> bool" where
  "closes r \<longleftrightarrow> r = [] \<or> hd r = 0x2C \<or> hd r = 0x0A"

definition reads_back :: "nat \<Rightarrow> jsvalue \<Rightarrow> bool" where
  "reads_back level v \<longleftrightarrow>
     (\<exists>s. serialize level v = Some s \<and> s \<noteq> [] \<and> opens_value (hd s)
        \<and> (\<forall>r. closes r \<longrightarrow> parse_value (s @ r) = Some (v, r)))"

lemma closes_ends_number: "closes r \<Longrightarrow> ends_number r"
  by (auto simp: closes_def ends_number_def is_digit_def)

lemma skip_ws_line: "\<not> is_ws c \<Longrightarrow> skip_ws (0x0A # indentation l @ c # r) = c # r"
  using skip_ws_ws [OF is_ws_line, of l "c # r"] by (simp add: skip_ws_plain)

lemma parse_elements_serialized:
  assumes "\<forall>v \<in> set vs. reads_back level v" "vs \<noteq> []" "list_all is_ws w"
  shows "parse_elements acc (w @ join_lines level (serialize_elements level vs)
           @ 0x0A # indentation l @ 0x5D # r) = Some (JArr (acc @ vs), r)"
  using assms
proof (induction vs arbitrary: acc w)
  case Nil
  then show ?case by simp
next
  case (Cons v vs)
  note prems = Cons.prems and IH = Cons.IH
  from prems(1) obtain s where s: "serialize level v = Some s" "s \<noteq> []"
    and reads: "\<And>r. closes r \<Longrightarrow> parse_value (s @ r) = Some (v, r)"
    by (auto simp: reads_back_def)
  let ?close = "0x0A # indentation l @ 0x5D # r"
  show ?case
  proof (cases vs)
    case Nil
    have "closes ?close"
      by (simp add: closes_def)
    from reads [OF this] prems(3) have pv: "parse_value (w @ s @ ?close) = Some (v, ?close)"
      by (simp add: parse_value_ws)
    have ws: "skip_ws ?close = 0x5D # r"
      by (rule skip_ws_line) (simp add: is_ws_def)
    have "parse_elements acc (w @ s @ ?close) = Some (JArr (acc @ [v]), r)"
      using s(2) by (subst parse_elements.simps) (simp add: pv ws)
    with s(1) Nil show ?thesis
      by simp
  next
    case (Cons u us)
    let ?T = "0x0A # indentation level @ join_lines level (serialize_elements level vs) @ ?close"
    have "closes (0x2C # ?T)"
      by (simp add: closes_def)
    from reads [OF this] prems(3) have pv: "parse_value (w @ s @ 0x2C # ?T) = Some (v, 0x2C # ?T)"
      by (simp add: parse_value_ws)
    have ws: "skip_ws (0x2C # ?T) = 0x2C # ?T"
      by (rule skip_ws_plain) (simp add: is_ws_def)
    from IH [of "0x0A # indentation level" "acc @ [v]"] prems(1) Cons is_ws_line [of level]
    have "parse_elements (acc @ [v]) ?T = Some (JArr (acc @ v # vs), r)"
      by simp
    then have "parse_elements acc (w @ s @ 0x2C # ?T) = Some (JArr (acc @ v # vs), r)"
      using s(2) by (subst parse_elements.simps) (simp add: pv ws)
    with s(1) Cons show ?thesis
      by simp
  qed
qed

lemma parse_members_serialized:
  assumes "\<forall>(k, v) \<in> set ps. reads_back level v" "ps \<noteq> []" "list_all is_ws w"
  shows "parse_members acc (w @ join_lines level (serialize_members level ps)
           @ 0x0A # indentation l @ 0x7D # r)
         = Some (JObj (foldl (\<lambda>a (k, v). obj_set a k v) acc ps), r)"
  using assms
proof (induction ps arbitrary: acc w)
  case Nil
  then show ?case by simp
next
  case (Cons p ps)
  note prems = Cons.prems and IH = Cons.IH
  obtain k v where p: "p = (k, v)"
    by (cases p)
  from prems(1) p obtain s where s: "serialize level v = Some s" "s \<noteq> []"
    and reads: "\<And>r. closes r \<Longrightarrow> parse_value (s @ r) = Some (v, r)"
    by (auto simp: reads_back_def)
  let ?close = "0x0A # indentation l @ 0x7D # r"
  have member: "parse_members acc (w @ (QuoteJSONString k @ 0x3A # 0x20 # s) @ R)
      = (case skip_ws R of
           [] \<Rightarrow> None
         | c2 # r4 \<Rightarrow>
             if c2 = 0x2C then parse_members (obj_set acc k v) r4
             else if c2 = 0x7D then Some (JObj (obj_set acc k v), r4)
             else None)" if "closes R" for R
  proof -
    have 1: "skip_ws (w @ QuoteJSONString k @ 0x3A # 0x20 # s @ R)
        = 0x22 # quote_chars k @ 0x22 # 0x3A # 0x20 # s @ R"
      using prems(3) skip_ws_plain [of "0x22"]
      by (simp add: skip_ws_ws QuoteJSONString_def) (simp add: is_ws_def)
    have 2: "skip_ws (0x3A # 0x20 # s @ R) = 0x3A # 0x20 # s @ R"
      by (rule skip_ws_plain) (simp add: is_ws_def)
    have 3: "parse_value (0x20 # s @ R) = Some (v, R)"
      using parse_value_ws [of "[0x20]" "s @ R"] reads [OF that] by (simp add: is_ws_def)
    show ?thesis
      using s(2)
      by (subst parse_members.simps) (simp add: 1 2 3 parse_string_quote_chars)
  qed
  show ?case
  proof (cases ps)
    case Nil
    have "closes ?close"
      by (simp add: closes_def)
    moreover have "skip_ws ?close = 0x7D # r"
      by (rule skip_ws_line) (simp add: is_ws_def)
    ultimately show ?thesis
      using member [of ?close] s(1) by (simp add: Nil p)
  next
    case (Cons q qs)
    obtain k' v' where q: "q = (k', v')"
      by (cases q)
    from prems(1) Cons q obtain s' where s': "serialize level v' = Some s'"
      by (auto simp: reads_back_def)
    let ?T = "0x0A # indentation level @ join_lines level (serialize_members level ps) @ ?close"
    have "closes (0x2C # ?T)"
      by (simp add: closes_def)
    moreover have "skip_ws (0x2C # ?T) = 0x2C # ?T"
      by (rule skip_ws_plain) (simp add: is_ws_def)
    moreover from IH [of "0x0A # indentation level" "obj_set acc k v"] prems(1) Cons
      is_ws_line [of level]
    have "parse_members (obj_set acc k v) ?T
        = Some (JObj (foldl (\<lambda>a (k, v). obj_set a k v) (obj_set acc k v) ps), r)"
      by simp
    ultimately show ?thesis
      using member [of "0x2C # ?T"] s(1) s' by (simp add: Cons p q)
  qed
qed


lemma foldl_obj_set_ordered:
  assumes "ordered_keys (map fst ps)"
  shows "foldl (\<lambda>a (k, v). obj_set a k v) [] ps = ps"
proof -
  from ordered_keys_split [OF assms] obtain I N where split: "ps = I @ N"
    "\<forall>i \<in> fst ` set I. is_index i" "\<forall>n \<in> fst ` set N. \<not> is_index n"
    by blast
  from refold [of "[]" I N "map fst N"] split assms show ?thesis
    by simp
qed

lemma join_lines_hd:
  "x \<noteq> [] \<Longrightarrow> join_lines level (x # xs) \<noteq> [] \<and> hd (join_lines level (x # xs)) = hd x"
  by (cases xs) simp_all

lemma parse_value_number:
  "t \<noteq> [] \<Longrightarrow> hd t = 0x2D \<or> is_digit (hd t) \<Longrightarrow>
   parse_value t = map_option (apfst JNum) (parse_number t)"
  by (cases t) (auto simp: parse_value.simps skip_ws_def is_ws_def is_digit_def)

lemma parse_value_array:
  assumes "body \<noteq> []" "opens_value (hd body)"
  shows "parse_value (0x5B # 0x0A # indentation l @ body) = parse_elements [] body"
proof -
  from assms obtain d ds where body: "body = d # ds" and d: "\<not> is_ws d" "d \<noteq> 0x5D"
    by (cases body) (auto simp: opens_value_def)
  have 1: "skip_ws (0x5B # 0x0A # indentation l @ d # ds) = 0x5B # 0x0A # indentation l @ d # ds"
    by (rule skip_ws_plain) (simp add: is_ws_def)
  have 2: "skip_ws (0x0A # indentation l @ d # ds) = d # ds"
    using d(1) by (rule skip_ws_line)
  show ?thesis
    using d(2) by (subst parse_value.simps) (simp add: body 1 2)
qed

lemma parse_value_object:
  assumes "body \<noteq> []" "opens_value (hd body)"
  shows "parse_value (0x7B # 0x0A # indentation l @ body) = parse_members [] body"
proof -
  from assms obtain d ds where body: "body = d # ds" and d: "\<not> is_ws d" "d \<noteq> 0x7D"
    by (cases body) (auto simp: opens_value_def)
  have 1: "skip_ws (0x7B # 0x0A # indentation l @ d # ds) = 0x7B # 0x0A # indentation l @ d # ds"
    by (rule skip_ws_plain) (simp add: is_ws_def)
  have 2: "skip_ws (0x0A # indentation l @ d # ds) = d # ds"
    using d(1) by (rule skip_ws_line)
  show ?thesis
    using d(2) by (subst parse_value.simps) (simp add: body 1 2)
qed

lemma reads_back_all: "decoded v \<Longrightarrow> exact v \<Longrightarrow> reads_back level v"
proof (induction v arbitrary: level)
  case JUndefined
  then show ?case by simp
next
  case JNull
  show ?case
    by (simp add: reads_back_def js_def opens_value_def is_ws_def parse_value.simps skip_ws_def
          is_digit_def parse_literal_def)
next
  case (JBool b)
  show ?case
    by (cases b)
      (simp_all add: reads_back_def js_def opens_value_def is_ws_def parse_value.simps skip_ws_def
         is_digit_def parse_literal_def)
next
  case (JNum x)
  show ?case
  proof (cases x)
    case (Finite neg m e)
    with JNum.prems have n: "normal (Finite neg m e)" "exact_number (Finite neg m e)"
      by simp_all
    have "parse_value (Number_toString (Finite neg m e) @ r) = Some (JNum x, r)" if "closes r" for r
      using Number_toString_hd [OF n(1)] parse_number_toString [OF n closes_ends_number [OF that]]
      by (subst parse_value_number) (auto simp: Finite simp del: Number_toString.simps)
    with serialize_hd [OF JNum.prems(1), of level] show ?thesis
      by (auto simp: reads_back_def Finite simp del: Number_toString.simps)
  next
    case (Infinity neg)
    with JNum.prems show ?thesis by simp
  qed
next
  case (JStr s)
  show ?case
    by (simp add: reads_back_def QuoteJSONString_def opens_value_def is_ws_def parse_value.simps
          skip_ws_def is_digit_def parse_string_quote_chars)
next
  case (JArr vs)
  then have all: "\<forall>v \<in> set vs. reads_back (Suc level) v"
    by auto
  show ?case
  proof (cases "vs = []")
    case True
    then show ?thesis
      by (simp add: reads_back_def js_def opens_value_def is_ws_def parse_value.simps skip_ws_def)
  next
    case False
    then obtain v vs' where vs: "vs = v # vs'"
      by (cases vs) auto
    with all obtain s where s: "serialize (Suc level) v = Some s" "s \<noteq> []" "opens_value (hd s)"
      by (auto simp: reads_back_def)
    let ?X = "join_lines (Suc level) (serialize_elements (Suc level) vs)"
    from join_lines_hd [OF s(2)] s have X: "?X \<noteq> []" "opens_value (hd ?X)"
      by (simp_all add: vs)
    have "parse_value (0x5B # 0x0A # indentation (Suc level)
            @ ?X @ 0x0A # indentation level @ 0x5D # r) = Some (JArr vs, r)" for r
      using parse_value_array [of "?X @ 0x0A # indentation level @ 0x5D # r" "Suc level"] X
        parse_elements_serialized [OF all False, of "[]" "[]" level r]
      by simp
    with False show ?thesis
      by (simp add: reads_back_def opens_value_def is_ws_def)
  qed
next
  case (JObj ps)
  then have all: "\<forall>(k, v) \<in> set ps. reads_back (Suc level) v"
    by fastforce
  from JObj.prems(1) have ordered: "ordered_keys (map fst ps)"
    by simp
  show ?case
  proof (cases "ps = []")
    case True
    then show ?thesis
      by (simp add: reads_back_def js_def opens_value_def is_ws_def parse_value.simps skip_ws_def)
  next
    case False
    then obtain k v ps' where ps: "ps = (k, v) # ps'"
      by (cases ps) auto
    with all obtain s where s: "serialize (Suc level) v = Some s"
      by (auto simp: reads_back_def)
    let ?X = "join_lines (Suc level) (serialize_members (Suc level) ps)"
    from s have members: "serialize_members (Suc level) ps \<noteq> []"
      by (simp add: ps)
    from join_lines_hd [of "QuoteJSONString k @ 0x3A # 0x20 # s" "Suc level"] s
    have X: "?X \<noteq> []" "opens_value (hd ?X)"
      by (simp_all add: ps QuoteJSONString_def opens_value_def is_ws_def)
    have "parse_value (0x7B # 0x0A # indentation (Suc level)
            @ ?X @ 0x0A # indentation level @ 0x7D # r) = Some (JObj ps, r)" for r
      using parse_value_object [of "?X @ 0x0A # indentation level @ 0x7D # r" "Suc level"] X
        parse_members_serialized [OF all False, of "[]" "[]" level r]
        foldl_obj_set_ordered [OF ordered]
      by simp
    with members show ?thesis
      by (simp add: reads_back_def opens_value_def is_ws_def)
  qed
qed

lemma JSON_round_trip:
  assumes "decoded v" "exact v"
  shows "\<exists>text. JSON_stringify v = Some text \<and> JSON_parse text = Inr v"
  using reads_back_all [OF assms, of 0]
  by (auto simp: reads_back_def JSON_stringify_def JSON_parse_def closes_def skip_ws_def)

subsection \<open>The constant \<^verbatim>\<open>config\<close>\<close>

lemma run_append:
  "run config (xs @ ys) s = (case run config xs s of None \<Rightarrow> None | Some s' \<Rightarrow> run config ys s')"
  by (induction xs arbitrary: s) (simp_all split: option.split)

lemma load_outcome:
  "fst (load path contents) =
     fst (resolve (case contents of None \<Rightarrow> js ''{}'' | Some c \<Rightarrow> c) s)"
proof -
  have "fst (rawConfig (initial path contents)) = (case contents of None \<Rightarrow> js ''{}'' | Some c \<Rightarrow> c)"
    by (simp add: rawConfig_def initial_def hasConfig_def emit_def split: option.split)
  with getConfig_outcome [of "initial path contents" s] show ?thesis
    by (simp add: load_def)
qed

lemma resolve_Return_decoded:
  assumes "fst (resolve t s) = Return cfg"
  shows "decoded cfg"
proof -
  from assms resolve_cases [of t s] obtain doc where doc: "JSON_parse t = Inr doc"
    and m: "merged_record t = Some cfg"
    by (auto split: sum.splits option.splits if_splits)
  from m doc have "merge_defaults doc = Inr cfg"
    by (auto simp: merged_record_def split: sum.splits)
  with JSON_parse_decoded [OF doc] show ?thesis
    by (rule decoded_merge_defaults)
qed

lemma saveConfig_decoded:
  assumes "decoded cfg"
  shows "\<exists>text. JSON_stringify cfg = Some text
           \<and> saveConfig cfg s = (Return (), emit (WriteFileSync text) (s\<lparr>configFile := Some text\<rparr>))"
  using serialize_hd [OF assms, of 0] by (auto simp: JSON_stringify_def saveConfig_def)

subsection \<open>The raw text: mock, file and warning\<close>

text \<open>
  C10. \<^verbatim>\<open>setMockRawConfig('')\<close> leaves no override: it changes nothing when none is set and
  removes one that is. The next \<^verbatim>\<open>rawConfig\<close> checks for the file first and returns its
  contents or \<^verbatim>\<open>{}\<close>, and after an override was set and cleared it does exactly what it
  does in the state where none was set.
\<close>

theorem setMockRawConfig_empty_clears:
  "mockConfig (setMockRawConfig [] s) = []
   \<and> setMockRawConfig [] (setMockRawConfig m s) = setMockRawConfig [] s
   \<and> (mockConfig s = [] \<longrightarrow> setMockRawConfig [] s = s)
   \<and> fst (rawConfig (setMockRawConfig [] s)) =
       (case configFile s of None \<Rightarrow> js ''{}'' | Some contents \<Rightarrow> contents)
   \<and> take (Suc (length (trace s))) (trace (snd (rawConfig (setMockRawConfig [] s)))) =
       trace s @ [ExistsSync]
   \<and> (mockConfig s = [] \<longrightarrow>
        rawConfig (setMockRawConfig [] (setMockRawConfig m s)) = rawConfig s)"
  by (simp add: setMockRawConfig_def rawConfig_def hasConfig_def emit_def log_warning_def
        split: option.split)

text \<open>Witness for C10.\<close>

theorem setMockRawConfig_empty_clears_witness:
  "mockConfig (initial (js ''/project/gluon.json'') None) = []
   \<and> setMockRawConfig [] (initial (js ''/project/gluon.json'') None) =
       initial (js ''/project/gluon.json'') None
   \<and> rawConfig (setMockRawConfig []
         (setMockRawConfig (js ''{}'') (initial (js ''/project/gluon.json'') None))) =
       rawConfig (initial (js ''/project/gluon.json'') None)"
proof -
  have h: "mockConfig (initial (js ''/project/gluon.json'') None) = []"
    by (simp add: initial_def)
  from setMockRawConfig_empty_clears [of "initial (js ''/project/gluon.json'') None" "js ''{}''"] h
  show ?thesis by simp
qed

text \<open>
  C8, amended. After \<^verbatim>\<open>setMockRawConfig\<close> with a non-empty string, and as long as it is not
  called with the empty string, \<^verbatim>\<open>rawConfig\<close> returns the override in force (the first one
  or one set since) and does nothing else: no check for the file, no event, no change of
  the state.
\<close>

theorem mock_override_until_cleared:
  assumes "m \<noteq> []" and "SetMockRawConfig [] \<notin> set steps"
    and "run config steps (setMockRawConfig m s) = Some s'"
  shows "mockConfig s' \<in> insert m {m'. SetMockRawConfig m' \<in> set steps}
         \<and> mockConfig s' \<noteq> [] \<and> rawConfig s' = (mockConfig s', s')"
  using run_mockConfig [of "setMockRawConfig m s" steps config s'] assms
  by (simp add: setMockRawConfig_def rawConfig_def)

text \<open>Witness for C8: a second override is set, and \<^verbatim>\<open>getConfig\<close> has run.\<close>

theorem mock_override_until_cleared_witness:
  \<open>js ''{"name":"x"}'' \<noteq> []
   \<and> SetMockRawConfig [] \<notin> set [RawConfig, SetMockRawConfig (js ''{}''), GetConfig]
   \<and> run JNull [RawConfig, SetMockRawConfig (js ''{}''), GetConfig]
         (setMockRawConfig (js ''{"name":"x"}'') (initial (js ''/project/gluon.json'') None)) =
       Some \<lparr>configPath = js ''/project/gluon.json'', configFile = None,
             hasWarnedAboutConfig = False, mockConfig = js ''{}'',
             trace = [Warning binaryName_warning]\<rparr>
   \<and> rawConfig \<lparr>configPath = js ''/project/gluon.json'', configFile = None,
             hasWarnedAboutConfig = False, mockConfig = js ''{}'',
             trace = [Warning binaryName_warning]\<rparr> =
       (js ''{}'', \<lparr>configPath = js ''/project/gluon.json'', configFile = None,
             hasWarnedAboutConfig = False, mockConfig = js ''{}'',
             trace = [Warning binaryName_warning]\<rparr>)\<close>
proof -
  have h1: \<open>js ''{"name":"x"}'' \<noteq> []\<close>
    by (simp add: js_def)
  have h2: "SetMockRawConfig [] \<notin> set [RawConfig, SetMockRawConfig (js ''{}''), GetConfig]"
    by (simp add: js_def)
  have h3: \<open>run JNull [RawConfig, SetMockRawConfig (js ''{}''), GetConfig]
         (setMockRawConfig (js ''{"name":"x"}'') (initial (js ''/project/gluon.json'') None)) =
       Some \<lparr>configPath = js ''/project/gluon.json'', configFile = None,
             hasWarnedAboutConfig = False, mockConfig = js ''{}'',
             trace = [Warning binaryName_warning]\<rparr>\<close>
    by code_simp
  from mock_override_until_cleared [OF h1 h2 h3] h1 h2 h3 show ?thesis
    by simp
qed

text \<open>
  C8 as stated fails: after an override is set, \<^verbatim>\<open>setMockRawConfig('')\<close> removes it, and
  the next \<^verbatim>\<open>rawConfig\<close> checks for the file and returns \<^verbatim>\<open>{}\<close>, not the override.
\<close>

theorem mock_override_cleared_counterexample:
  \<open>run JNull [SetMockRawConfig [], RawConfig]
     (setMockRawConfig (js ''{"name":"x"}'') (initial (js ''/project/gluon.json'') None)) =
   Some \<lparr>configPath = js ''/project/gluon.json'', configFile = None,
         hasWarnedAboutConfig = True, mockConfig = [],
         trace = [ExistsSync, Warning (missing_config_warning (js ''/project/gluon.json''))]\<rparr>
   \<and> fst (rawConfig (setMockRawConfig []
          (setMockRawConfig (js ''{"name":"x"}'') (initial (js ''/project/gluon.json'') None)))) =
       js ''{}''\<close>
  by (simp add: rawConfig_eq initial_def appends_def setMockRawConfig_def)

text \<open>
  C7. In a process (any steps after the module's variables are initialised) the warning
  about the missing config file is in the trace at most once. A call of \<^verbatim>\<open>rawConfig\<close>
  while the file is absent and no mock is set returns the text \<^verbatim>\<open>{}\<close>; it checks for the
  file, and emits the warning exactly when the warning was never emitted before.
\<close>

theorem missing_config_warning_once:
  assumes "run config steps (initial path contents) = Some s"
  shows "count_list (trace s) (Warning (missing_config_warning path)) \<le> 1
         \<and> (configFile s = None \<and> mockConfig s = [] \<longrightarrow>
              fst (rawConfig s) = js ''{}''
              \<and> trace (snd (rawConfig s)) =
                  trace s @ ExistsSync #
                    (if count_list (trace s) (Warning (missing_config_warning path)) = 0
                     then [Warning (missing_config_warning path)] else []))"
  using run_warned [OF assms, of path]
  by (auto simp: initial_def rawConfig_eq appends_def)

text \<open>Witness for C7: a second call after a first one that warned.\<close>

theorem missing_config_warning_once_witness:
  "run JNull [RawConfig] (initial (js ''/project/gluon.json'') None) =
     Some \<lparr>configPath = js ''/project/gluon.json'', configFile = None,
           hasWarnedAboutConfig = True, mockConfig = [],
           trace = [ExistsSync, Warning (missing_config_warning (js ''/project/gluon.json''))]\<rparr>
   \<and> fst (rawConfig \<lparr>configPath = js ''/project/gluon.json'', configFile = None,
           hasWarnedAboutConfig = True, mockConfig = [],
           trace = [ExistsSync, Warning (missing_config_warning (js ''/project/gluon.json''))]\<rparr>)
       = js ''{}''
   \<and> trace (snd (rawConfig \<lparr>configPath = js ''/project/gluon.json'', configFile = None,
           hasWarnedAboutConfig = True, mockConfig = [],
           trace = [ExistsSync, Warning (missing_config_warning (js ''/project/gluon.json''))]\<rparr>))
       = [ExistsSync, Warning (missing_config_warning (js ''/project/gluon.json'')), ExistsSync]"
proof -
  have h: "run JNull [RawConfig] (initial (js ''/project/gluon.json'') None) =
     Some \<lparr>configPath = js ''/project/gluon.json'', configFile = None,
           hasWarnedAboutConfig = True, mockConfig = [],
           trace = [ExistsSync, Warning (missing_config_warning (js ''/project/gluon.json''))]\<rparr>"
    by (simp add: rawConfig_eq initial_def appends_def)
  from missing_config_warning_once [OF h] h show ?thesis
    by simp
qed

text \<open>
  C3, amended. \<^verbatim>\<open>getConfig\<close> keeps nothing between calls. With no mock set, every call
  checks for the file again, and reads it again when it is there; the outcome of a call
  is the outcome of resolving the text that \<^verbatim>\<open>rawConfig\<close> gives at that call, whatever
  the state. What is computed once in a process is the constant \<^verbatim>\<open>config\<close>: it is the
  resolution of the text read when the module is loaded, and after any steps of the
  process, whatever they did to the file and to the override and whatever later calls
  of \<^verbatim>\<open>getConfig\<close> returned, \<^verbatim>\<open>saveConfig\<close> writes the serialisation of that constant, and
  reads nothing.
\<close>

theorem getConfig_resolves_at_each_call:
  "(mockConfig s = [] \<longrightarrow>
      take (Suc (length (trace s))) (trace (snd (getConfig s))) = trace s @ [ExistsSync])
   \<and> (mockConfig s = [] \<longrightarrow> configFile s \<noteq> None \<longrightarrow>
      take (length (trace s) + 2) (trace (snd (getConfig s))) =
        trace s @ [ExistsSync, ReadFileSync])
   \<and> fst (getConfig s) = fst (resolve (fst (rawConfig s)) s0)
   \<and> (load path contents = (Return cfg, s1) \<longrightarrow> run cfg steps s1 = Some s2 \<longrightarrow>
        fst (resolve (case contents of None \<Rightarrow> js ''{}'' | Some c \<Rightarrow> c) s0) = Return cfg
      \<and> process path contents (steps @ [SaveConfig]) = Some (snd (saveConfig cfg s2))
      \<and> (\<exists>text. JSON_stringify cfg = Some text
            \<and> saveConfig cfg s2 =
                (Return (), emit (WriteFileSync text) (s2\<lparr>configFile := Some text\<rparr>))))"
proof -
  have calls: "(mockConfig s = [] \<longrightarrow>
      take (Suc (length (trace s))) (trace (snd (getConfig s))) = trace s @ [ExistsSync])
   \<and> (mockConfig s = [] \<longrightarrow> configFile s \<noteq> None \<longrightarrow>
      take (length (trace s) + 2) (trace (snd (getConfig s))) =
        trace s @ [ExistsSync, ReadFileSync])
   \<and> fst (getConfig s) = fst (resolve (fst (rawConfig s)) s0)"
    using getConfig_outcome [of s s0]
    by (auto simp: getConfig_eq [of s] rawConfig_eq appends_def split: option.split)
  have "fst (resolve (case contents of None \<Rightarrow> js ''{}'' | Some c \<Rightarrow> c) s0) = Return cfg
      \<and> process path contents (steps @ [SaveConfig]) = Some (snd (saveConfig cfg s2))
      \<and> (\<exists>text. JSON_stringify cfg = Some text
            \<and> saveConfig cfg s2 =
                (Return (), emit (WriteFileSync text) (s2\<lparr>configFile := Some text\<rparr>)))"
    if load: "load path contents = (Return cfg, s1)" and run: "run cfg steps s1 = Some s2"
  proof -
    from load load_outcome [of path contents s0]
    have cfg: "fst (resolve (case contents of None \<Rightarrow> js ''{}'' | Some c \<Rightarrow> c) s0) = Return cfg"
      by simp
    from load run have "process path contents (steps @ [SaveConfig]) = Some (snd (saveConfig cfg s2))"
      by (simp add: process_def run_append)
    with cfg saveConfig_decoded [OF resolve_Return_decoded [OF cfg], of s2] show ?thesis
      by simp
  qed
  with calls show ?thesis
    by blast
qed

text \<open>
  Witness for C3: the file is \<^verbatim>\<open>{}\<close> when the module is loaded; it is then replaced, and
  \<^verbatim>\<open>getConfig\<close> is called again, before \<^verbatim>\<open>saveConfig\<close>.
\<close>

theorem getConfig_resolves_at_each_call_witness:
  \<open>mockConfig (initial (js ''/project/gluon.json'') (Some (js ''{}''))) = []
   \<and> configFile (initial (js ''/project/gluon.json'') (Some (js ''{}''))) \<noteq> None
   \<and> take 2 (trace (snd (getConfig (initial (js ''/project/gluon.json'') (Some (js ''{}''))))))
       = [ExistsSync, ReadFileSync]
   \<and> load (js ''/project/gluon.json'') (Some (js ''{}'')) =
       (Return defaultConfig,
        \<lparr>configPath = js ''/project/gluon.json'', configFile = Some (js ''{}''),
         hasWarnedAboutConfig = False, mockConfig = [],
         trace = [ExistsSync, ReadFileSync, Warning binaryName_warning]\<rparr>)
   \<and> run defaultConfig
         [FileChanged (Some (js ''{"version":{"product":"firefox-esr"}}'')), GetConfig]
         \<lparr>configPath = js ''/project/gluon.json'', configFile = Some (js ''{}''),
          hasWarnedAboutConfig = False, mockConfig = [],
          trace = [ExistsSync, ReadFileSync, Warning binaryName_warning]\<rparr> =
       Some \<lparr>configPath = js ''/project/gluon.json'',
             configFile = Some (js ''{"version":{"product":"firefox-esr"}}''),
             hasWarnedAboutConfig = False, mockConfig = [],
             trace = [ExistsSync, ReadFileSync, Warning binaryName_warning,
                      ExistsSync, ReadFileSync, Warning binaryName_warning]\<rparr>
   \<and> fst (resolve (js ''{}'') (initial [] None)) = Return defaultConfig
   \<and> process (js ''/project/gluon.json'') (Some (js ''{}''))
         [FileChanged (Some (js ''{"version":{"product":"firefox-esr"}}'')), GetConfig, SaveConfig] =
       Some (snd (saveConfig defaultConfig
         \<lparr>configPath = js ''/project/gluon.json'',
          configFile = Some (js ''{"version":{"product":"firefox-esr"}}''),
          hasWarnedAboutConfig = False, mockConfig = [],
          trace = [ExistsSync, ReadFileSync, Warning binaryName_warning,
                   ExistsSync, ReadFileSync, Warning binaryName_warning]\<rparr>))
   \<and> (\<exists>text. JSON_stringify defaultConfig = Some text
         \<and> saveConfig defaultConfig
              \<lparr>configPath = js ''/project/gluon.json'',
               configFile = Some (js ''{"version":{"product":"firefox-esr"}}''),
               hasWarnedAboutConfig = False, mockConfig = [],
               trace = [ExistsSync, ReadFileSync, Warning binaryName_warning,
                        ExistsSync, ReadFileSync, Warning binaryName_warning]\<rparr> =
             (Return (), emit (WriteFileSync text)
               (\<lparr>configPath = js ''/project/gluon.json'',
                 configFile = Some (js ''{"version":{"product":"firefox-esr"}}''),
                 hasWarnedAboutConfig = False, mockConfig = [],
                 trace = [ExistsSync, ReadFileSync, Warning binaryName_warning,
                          ExistsSync, ReadFileSync, Warning binaryName_warning]\<rparr>
                \<lparr>configFile := Some text\<rparr>)))\<close>
proof -
  let ?P = "js ''/project/gluon.json''"
  let ?S1 = "\<lparr>configPath = ?P, configFile = Some (js ''{}''),
         hasWarnedAboutConfig = False, mockConfig = [],
         trace = [ExistsSync, ReadFileSync, Warning binaryName_warning]\<rparr>"
  let ?S2 = \<open>\<lparr>configPath = ?P,
             configFile = Some (js ''{"version":{"product":"firefox-esr"}}''),
             hasWarnedAboutConfig = False, mockConfig = [],
             trace = [ExistsSync, ReadFileSync, Warning binaryName_warning,
                      ExistsSync, ReadFileSync, Warning binaryName_warning]\<rparr>\<close>
  have h: "mockConfig (initial ?P (Some (js ''{}''))) = []"
     "configFile (initial ?P (Some (js ''{}''))) \<noteq> None"
     "trace (initial ?P (Some (js ''{}''))) = []"
    by (simp_all add: initial_def)
  have l: "load ?P (Some (js ''{}'')) = (Return defaultConfig, ?S1)"
    by code_simp
  have r: \<open>run defaultConfig
      [FileChanged (Some (js ''{"version":{"product":"firefox-esr"}}'')), GetConfig] ?S1 = Some ?S2\<close>
    by code_simp
  from getConfig_resolves_at_each_call [of "initial ?P (Some (js ''{}''))" "initial [] None"
      ?P "Some (js ''{}'')" defaultConfig ?S1
      \<open>[FileChanged (Some (js ''{"version":{"product":"firefox-esr"}}'')), GetConfig]\<close> ?S2] h l r
  show ?thesis
    by (simp add: numeral_2_eq_2)
qed

text \<open>
  C3 as stated fails: a second call of \<^verbatim>\<open>getConfig\<close> checks and reads the file again, and
  returns another record when the file has changed in between.
\<close>

theorem getConfig_memoized_counterexample:
  \<open>trace (snd (getConfig (snd (getConfig (initial (js ''/project/gluon.json'') (Some (js ''{}'')))))))
     = [ExistsSync, ReadFileSync, Warning binaryName_warning,
        ExistsSync, ReadFileSync, Warning binaryName_warning]
   \<and> fst (getConfig (initial (js ''/project/gluon.json'') (Some (js ''{}'')))) = Return defaultConfig
   \<and> fst (getConfig ((snd (getConfig (initial (js ''/project/gluon.json'') (Some (js ''{}'')))))
              \<lparr>configFile := Some (js ''{"version":{"product":"firefox-esr"}}'')\<rparr>))
       \<noteq> Return defaultConfig\<close>
  by code_simp

subsection \<open>The merge with the defaults\<close>

text \<open>
  C2. The merge is shallow. For a decoded document, every key but \<^verbatim>\<open>license\<close> has in the
  merged record the document's value when the document has the key (whole, whatever the
  default was: \<^verbatim>\<open>addons\<close> and \<^verbatim>\<open>brands\<close> are not merged with their defaults), and the
  default's otherwise. \<^verbatim>\<open>license\<close> is an object that has, key by key, the value of the
  document's \<^verbatim>\<open>license\<close> (the default one when the document has none) when that has the
  key, and the value of \<^verbatim>\<open>defaultLicenseConfig\<close> otherwise.
\<close>

theorem default_merge_shallow:
  assumes "JSON_parse text = Inr doc"
  shows "\<exists>merged license.
           merge_defaults doc = Inr (JObj merged)
         \<and> (\<forall>k. k \<noteq> js ''license'' \<longrightarrow>
                map_of merged k =
                  (case map_of (own_props doc) k of
                     Some v \<Rightarrow> Some v
                   | None \<Rightarrow> map_of (own_props defaultConfig) k))
         \<and> map_of merged (js ''license'') = Some (JObj license)
         \<and> (\<forall>k. map_of license k =
                  (case map_of (own_props
                          (case map_of (own_props doc) (js ''license'') of
                             Some l \<Rightarrow> l
                           | None \<Rightarrow> defaultLicenseConfig)) k of
                     Some v \<Rightarrow> Some v
                   | None \<Rightarrow> map_of (own_props defaultLicenseConfig) k))"
proof -
  from assms have doc: "decoded doc"
    by (rule JSON_parse_decoded)
  let ?merged = "obj_set (spread (own_props defaultConfig) doc) (js ''license'')
                  (JObj (spread (own_props defaultLicenseConfig) (merged_license doc)))"
  have "merge_defaults doc = Inr (JObj ?merged)"
    using doc by (rule merge_defaults_eq(1))
  moreover from this have "\<forall>k. k \<noteq> js ''license'' \<longrightarrow>
      map_of ?merged k =
        (case map_of (own_props doc) k of
           Some v \<Rightarrow> Some v
         | None \<Rightarrow> map_of (own_props defaultConfig) k)"
    using merged_field [OF doc] by blast
  moreover have "map_of ?merged (js ''license'') =
      Some (JObj (spread (own_props defaultLicenseConfig) (merged_license doc)))"
    by (simp add: map_of_obj_set)
  moreover have "\<forall>k. map_of (spread (own_props defaultLicenseConfig) (merged_license doc)) k =
      (case map_of (own_props (merged_license doc)) k of
         Some v \<Rightarrow> Some v
       | None \<Rightarrow> map_of (own_props defaultLicenseConfig) k)"
    by (simp add: merge_defaults_eq(3) [OF doc] map_add_def)
  ultimately show ?thesis
    unfolding merged_license_def by blast
qed

text \<open>Witness for C2: a document with only \<^verbatim>\<open>licenseType\<close> in its license, and one addon.\<close>

theorem default_merge_shallow_witness:
  \<open>JSON_parse (js ''{"license":{"licenseType":"unknown"},"addons":{"a":{"id":"b"}}}'') =
     Inr (JObj [(js ''license'', JObj [(js ''licenseType'', JStr (js ''unknown''))]),
                (js ''addons'', JObj [(js ''a'', JObj [(js ''id'', JStr (js ''b''))])])])
   \<and> (\<exists>merged license.
         merge_defaults
           (JObj [(js ''license'', JObj [(js ''licenseType'', JStr (js ''unknown''))]),
                  (js ''addons'', JObj [(js ''a'', JObj [(js ''id'', JStr (js ''b''))])])]) =
           Inr (JObj merged)
       \<and> map_of merged (js ''addons'') = Some (JObj [(js ''a'', JObj [(js ''id'', JStr (js ''b''))])])
       \<and> map_of merged (js ''brands'') = Some (JObj [])
       \<and> map_of merged (js ''license'') = Some (JObj license)
       \<and> map_of license (js ''licenseType'') = Some (JStr (js ''unknown''))
       \<and> map_of license (js ''ignoredFiles'') =
           Some (JArr [JStr (js ''.*'' @ 0x5C # js ''.json'')]))\<close>
proof -
  let ?doc = "JObj [(js ''license'', JObj [(js ''licenseType'', JStr (js ''unknown''))]),
                (js ''addons'', JObj [(js ''a'', JObj [(js ''id'', JStr (js ''b''))])])]"
  have h: \<open>JSON_parse (js ''{"license":{"licenseType":"unknown"},"addons":{"a":{"id":"b"}}}'') =
     Inr ?doc\<close>
    by code_simp
  have e: "js ''addons'' \<noteq> js ''license''" "js ''brands'' \<noteq> js ''license''"
    "map_of (own_props ?doc) (js ''addons'') = Some (JObj [(js ''a'', JObj [(js ''id'', JStr (js ''b''))])])"
    "map_of (own_props ?doc) (js ''brands'') = None"
    "map_of (own_props defaultConfig) (js ''brands'') = Some (JObj [])"
    "map_of (own_props ?doc) (js ''license'') = Some (JObj [(js ''licenseType'', JStr (js ''unknown''))])"
    "map_of [(js ''licenseType'', JStr (js ''unknown''))] (js ''licenseType'') = Some (JStr (js ''unknown''))"
    "map_of [(js ''licenseType'', JStr (js ''unknown''))] (js ''ignoredFiles'') = None"
    "map_of (own_props defaultLicenseConfig) (js ''ignoredFiles'') = Some (JArr [JStr (js ''.*'' @ 0x5C # js ''.json'')])"
    by code_simp+
  from default_merge_shallow [OF h] obtain merged license where
    m: "merge_defaults ?doc = Inr (JObj merged)"
      "\<forall>k. k \<noteq> js ''license'' \<longrightarrow>
                map_of merged k =
                  (case map_of (own_props ?doc) k of
                     Some v \<Rightarrow> Some v
                   | None \<Rightarrow> map_of (own_props defaultConfig) k)"
      "map_of merged (js ''license'') = Some (JObj license)"
      "\<forall>k. map_of license k =
                  (case map_of (own_props
                          (case map_of (own_props ?doc) (js ''license'') of
                             Some l \<Rightarrow> l
                           | None \<Rightarrow> defaultLicenseConfig)) k of
                     Some v \<Rightarrow> Some v
                   | None \<Rightarrow> map_of (own_props defaultLicenseConfig) k)"
    by blast
  from m(2) e(1-5) have "map_of merged (js ''addons'') = Some (JObj [(js ''a'', JObj [(js ''id'', JStr (js ''b''))])])"
    "map_of merged (js ''brands'') = Some (JObj [])"
    by simp_all
  moreover from m(4) e(6-9) have "map_of license (js ''licenseType'') = Some (JStr (js ''unknown''))"
    "map_of license (js ''ignoredFiles'') = Some (JArr [JStr (js ''.*'' @ 0x5C # js ''.json'')])"
    by simp_all
  ultimately show ?thesis
    using h m(1,3) by blast
qed

subsection \<open>Resolution of particular documents\<close>

text \<open>
  C4. When the raw text decodes to the empty object, as \<^verbatim>\<open>{}\<close> does, \<^verbatim>\<open>getConfig\<close> returns
  a record equal to \<^verbatim>\<open>defaultConfig\<close>, whose \<^verbatim>\<open>license\<close> is \<^verbatim>\<open>defaultLicenseConfig\<close>; its
  one diagnostic is the warning about \<^verbatim>\<open>binaryName\<close>.
\<close>

theorem empty_document_gives_defaults:
  assumes "JSON_parse (fst (rawConfig s)) = Inr (JObj [])"
  shows "getConfig s = (Return defaultConfig, log_warning binaryName_warning (snd (rawConfig s)))
         \<and> Get defaultConfig (js ''license'') = Inr defaultLicenseConfig"
proof -
  have "Get (JObj []) (js ''binaryName'') = Inr JUndefined"
    by simp
  from resolve_parsed [OF assms this merge_defaults_empty validate_defaultConfig]
  have "getConfig s = (Return defaultConfig, log_warning binaryName_warning (snd (rawConfig s)))"
    by (simp add: getConfig_resolve initial_def log_warning_def emit_def appends_def)
  moreover have "Get defaultConfig (js ''license'') = Inr defaultLicenseConfig"
    by code_simp
  ultimately show ?thesis ..
qed

text \<open>Witness for C4: no file and no mock, so that the raw text is \<^verbatim>\<open>{}\<close>; and a mock.\<close>

theorem empty_document_gives_defaults_witness:
  "JSON_parse (fst (rawConfig (setMockRawConfig (js '' { } '') (initial (js ''/project/gluon.json'') None))))
     = Inr (JObj [])
   \<and> fst (getConfig (setMockRawConfig (js '' { } '') (initial (js ''/project/gluon.json'') None)))
       = Return defaultConfig
   \<and> JSON_parse (js ''{}'') = Inr (JObj [])"
proof -
  have h: "JSON_parse (fst (rawConfig (setMockRawConfig (js '' { } '') (initial (js ''/project/gluon.json'') None))))
     = Inr (JObj [])"
    by code_simp
  have "JSON_parse (js ''{}'') = Inr (JObj [])"
    by code_simp
  with empty_document_gives_defaults [OF h] h show ?thesis
    by simp
qed


text \<open>
  C5. On the raw text \<^verbatim>\<open>{"addons":{"foo":{"platform":"amo","id":"x"}}}\<close>, \<^verbatim>\<open>getConfig\<close>
  returns. Besides the warning about \<^verbatim>\<open>binaryName\<close> it reports exactly two errors, the
  missing \<^verbatim>\<open>amoId\<close> and the missing \<^verbatim>\<open>version\<close> of addon \<^verbatim>\<open>foo\<close>, and the \<^verbatim>\<open>addons\<close> of the
  record it returns has the one entry \<^verbatim>\<open>foo\<close>, the object of the text as it was decoded.
\<close>

theorem addon_errors_example:
  assumes \<open>fst (rawConfig s) = js ''{"addons":{"foo":{"platform":"amo","id":"x"}}}''\<close>
  shows \<open>getConfig s =
      (Return
         (JObj [(js ''name'', JStr (js ''Unknown gluon build'')),
                (js ''vendor'', JStr (js ''Unknown'')),
                (js ''appId'', JStr (js ''unknown.appid'')),
                (js ''binaryName'', JStr (js ''firefox'')),
                (js ''version'', JObj [(js ''product'', JStr (js ''firefox''))]),
                (js ''buildOptions'',
                   JObj [(js ''generateBranding'', JBool True),
                         (js ''windowsUseSymbolicLinks'', JBool False)]),
                (js ''addons'',
                   JObj [(js ''foo'',
                          JObj [(js ''platform'', JStr (js ''amo'')), (js ''id'', JStr (js ''x''))])]),
                (js ''brands'', JObj []),
                (js ''license'', defaultLicenseConfig)]),
       appends
         [Warning binaryName_warning,
          Error (js ''The 'amoId' property was not provided for addon foo''),
          Error (js ''The 'version' property was not provided for addon foo'')]
         (snd (rawConfig s)))
    \<and> JSON_parse (js ''{"platform":"amo","id":"x"}'') =
        Inr (JObj [(js ''platform'', JStr (js ''amo'')), (js ''id'', JStr (js ''x''))])\<close>
proof -
  let ?foo = "JObj [(js ''platform'', JStr (js ''amo'')), (js ''id'', JStr (js ''x''))]"
  let ?doc = "JObj [(js ''addons'', JObj [(js ''foo'', ?foo)])]"
  let ?cfg = "JObj [(js ''name'', JStr (js ''Unknown gluon build'')),
                (js ''vendor'', JStr (js ''Unknown'')),
                (js ''appId'', JStr (js ''unknown.appid'')),
                (js ''binaryName'', JStr (js ''firefox'')),
                (js ''version'', JObj [(js ''product'', JStr (js ''firefox''))]),
                (js ''buildOptions'',
                   JObj [(js ''generateBranding'', JBool True),
                         (js ''windowsUseSymbolicLinks'', JBool False)]),
                (js ''addons'', JObj [(js ''foo'', ?foo)]),
                (js ''brands'', JObj []),
                (js ''license'', defaultLicenseConfig)]"
  have 1: \<open>JSON_parse (js ''{"addons":{"foo":{"platform":"amo","id":"x"}}}'') = Inr ?doc\<close>
    by code_simp
  have 2: "Get ?doc (js ''binaryName'') = Inr JUndefined"
    by code_simp
  have 3: "merge_defaults ?doc = Inr ?cfg"
    by code_simp
  have 4: \<open>validate ?cfg (initial [] None) =
      (Return ?cfg,
       appends [Error (js ''The 'amoId' property was not provided for addon foo''),
                Error (js ''The 'version' property was not provided for addon foo'')]
         (initial [] None))\<close>
    by code_simp
  have 5: \<open>JSON_parse (js ''{"platform":"amo","id":"x"}'') = Inr ?foo\<close>
    by code_simp
  from resolve_parsed [OF 1 2 3 4, of "snd (rawConfig s)"] assms 5 show ?thesis
    by (simp add: getConfig_resolve initial_def appends_def)
qed

text \<open>Witness for C5: the text as the mock.\<close>

theorem addon_errors_example_witness:
  \<open>fst (rawConfig (setMockRawConfig (js ''{"addons":{"foo":{"platform":"amo","id":"x"}}}'')
          (initial (js ''/project/gluon.json'') None))) =
     js ''{"addons":{"foo":{"platform":"amo","id":"x"}}}''
   \<and> trace (snd (getConfig (setMockRawConfig (js ''{"addons":{"foo":{"platform":"amo","id":"x"}}}'')
          (initial (js ''/project/gluon.json'') None)))) =
       [Warning binaryName_warning,
        Error (js ''The 'amoId' property was not provided for addon foo''),
        Error (js ''The 'version' property was not provided for addon foo'')]\<close>
proof -
  have h: \<open>fst (rawConfig (setMockRawConfig (js ''{"addons":{"foo":{"platform":"amo","id":"x"}}}'')
          (initial (js ''/project/gluon.json'') None))) =
     js ''{"addons":{"foo":{"platform":"amo","id":"x"}}}''\<close>
    by (simp add: rawConfig_def setMockRawConfig_def js_def)
  have t: \<open>trace (snd (rawConfig (setMockRawConfig (js ''{"addons":{"foo":{"platform":"amo","id":"x"}}}'')
          (initial (js ''/project/gluon.json'') None)))) = []\<close>
    by (simp add: rawConfig_def setMockRawConfig_def js_def initial_def)
  from addon_errors_example [OF h] h t show ?thesis
    by (simp add: appends_def)
qed

text \<open>
  C9. A document whose \<^verbatim>\<open>version\<close> is an object without \<^verbatim>\<open>product\<close> ends the process with
  exit code 1: the merged record has the document's \<^verbatim>\<open>version\<close>, not the default's, so its
  product is \<^verbatim>\<open>undefined\<close>, which is not a valid product, although the product of
  \<^verbatim>\<open>defaultConfig\<close> is one.
\<close>

theorem version_without_product_exits:
  assumes "JSON_parse (fst (rawConfig s)) = Inr doc"
    and "map_of (own_props doc) (js ''version'') = Some (JObj version)"
    and "js ''product'' \<notin> fst ` set version"
  shows "fst (getConfig s) = Exit 1
         \<and> last (trace (snd (getConfig s))) = Error (js ''undefined is not a valid product'')
         \<and> (\<exists>merged. merge_defaults doc = Inr merged
               \<and> Get merged (js ''version'') = Inr (JObj version))
         \<and> Array_includes validProducts (JStr (product_value Firefox))"
proof -
  from assms(1) have doc: "decoded doc"
    by (rule JSON_parse_decoded)
  from assms(2) obtain b where b: "Get doc (js ''binaryName'') = Inr b"
    by (cases doc) auto
  let ?merged = "obj_set (spread (own_props defaultConfig) doc) (js ''license'')
                  (JObj (spread (own_props defaultLicenseConfig) (merged_license doc)))"
  have m: "merge_defaults doc = Inr (JObj ?merged)"
    using doc by (rule merge_defaults_eq(1))
  have "js ''version'' \<noteq> js ''license''"
    by code_simp
  from merged_field [OF doc m this] assms(2) have v: "Get (JObj ?merged) (js ''version'') = Inr (JObj version)"
    by simp
  from assms(3) have p: "Get (JObj version) (js ''product'') = Inr JUndefined"
    by (simp add: map_of_eq_None_iff [THEN iffD2])
  have i: "\<not> Array_includes validProducts JUndefined"
    by code_simp
  have u: "js ''undefined'' @ js '' is not a valid product'' = js ''undefined is not a valid product''"
    by (simp add: js_def)
  have "validate (JObj ?merged) (initial [] None) =
      (Exit 1, log_error (js ''undefined is not a valid product'') (initial [] None))"
    unfolding validate_def by (simp add: v p i u del: Get.simps)
  from resolve_parsed [OF assms(1) b m this, of "snd (rawConfig s)"]
  have "fst (getConfig s) = Exit 1"
    "last (trace (snd (getConfig s))) = Error (js ''undefined is not a valid product'')"
    by (simp_all add: getConfig_resolve initial_def appends_def log_error_def emit_def)
  moreover have "Array_includes validProducts (JStr (product_value Firefox))"
    by code_simp
  ultimately show ?thesis
    using m v by blast
qed

text \<open>Witness for C9: the document \<^verbatim>\<open>{"version":{"version":"1.0"}}\<close>.\<close>

theorem version_without_product_exits_witness:
  \<open>JSON_parse (fst (rawConfig (setMockRawConfig (js ''{"version":{"version":"1.0"}}'')
       (initial (js ''/project/gluon.json'') None)))) =
     Inr (JObj [(js ''version'', JObj [(js ''version'', JStr (js ''1.0''))])])
   \<and> map_of (own_props (JObj [(js ''version'', JObj [(js ''version'', JStr (js ''1.0''))])]))
         (js ''version'') = Some (JObj [(js ''version'', JStr (js ''1.0''))])
   \<and> js ''product'' \<notin> fst ` set [(js ''version'', JStr (js ''1.0''))]
   \<and> fst (getConfig (setMockRawConfig (js ''{"version":{"version":"1.0"}}'')
       (initial (js ''/project/gluon.json'') None))) = Exit 1\<close>
proof -
  have h1: \<open>JSON_parse (fst (rawConfig (setMockRawConfig (js ''{"version":{"version":"1.0"}}'')
       (initial (js ''/project/gluon.json'') None)))) =
     Inr (JObj [(js ''version'', JObj [(js ''version'', JStr (js ''1.0''))])])\<close>
    by code_simp
  have h2: "map_of (own_props (JObj [(js ''version'', JObj [(js ''version'', JStr (js ''1.0''))])]))
         (js ''version'') = Some (JObj [(js ''version'', JStr (js ''1.0''))])"
    by simp
  have h3: "js ''product'' \<notin> fst ` set [(js ''version'', JStr (js ''1.0''))]"
    by (simp add: js_def)
  from version_without_product_exits [OF h1 h2 h3] h1 h2 h3 show ?thesis
    by blast
qed

subsection \<open>The outcomes of a resolution\<close>

text \<open>
  C1, amended. The resolution of a text ends the process, with exit code 1, in exactly
  two cases: the text is not valid JSON, or the product of the merged record
  (\<^verbatim>\<open>version.product\<close>, when it can be read) is not one of the five supported values and
  can be written into the error message. It returns a Config, the merged record, exactly
  when the product is one of the five values and every entry of \<^verbatim>\<open>addons\<close> is a value that
  is not \<^verbatim>\<open>null\<close> and whose \<^verbatim>\<open>platform\<close> can be converted to a string, whatever else the addon
  descriptors lack. In the remaining cases a \<^verbatim>\<open>TypeError\<close> is thrown; no Config is returned
  then, nor when the process ends.
\<close>

theorem resolution_outcomes:
  "(fst (resolve t s) = Exit c \<longleftrightarrow>
      c = 1 \<and>
      (JSON_parse t = Inl SyntaxError
       \<or> (\<exists>m p. merged_record t = Some m \<and> product_of m = Some p
                \<and> \<not> Array_includes validProducts p \<and> ToString p \<noteq> Inl TypeError)))
   \<and> (fst (resolve t s) = Return cfg \<longleftrightarrow>
        merged_record t = Some cfg
        \<and> (\<exists>p. product_of cfg = Some p \<and> Array_includes validProducts p)
        \<and> (\<forall>(k, a) \<in> set (addons_of cfg). addon_ok a))
   \<and> (fst (resolve t s) = Throw e \<longrightarrow> e = TypeError)"
  unfolding resolve_cases [of t s]
  by (auto split: sum.splits option.splits if_splits
        dest: JSON_parse_Inl ToString_Inl(1) simp: merged_record_def)


text \<open>
  Witness for C1: the document of C5, with an incomplete addon descriptor, is resolved to
  a Config; the text \<^verbatim>\<open>{\<close> ends the process.
\<close>

theorem resolution_outcomes_witness:
  \<open>merged_record (js ''{"addons":{"foo":{"platform":"amo","id":"x"}}}'') =
     Some (JObj [(js ''name'', JStr (js ''Unknown gluon build'')),
                (js ''vendor'', JStr (js ''Unknown'')),
                (js ''appId'', JStr (js ''unknown.appid'')),
                (js ''binaryName'', JStr (js ''firefox'')),
                (js ''version'', JObj [(js ''product'', JStr (js ''firefox''))]),
                (js ''buildOptions'',
                   JObj [(js ''generateBranding'', JBool True),
                         (js ''windowsUseSymbolicLinks'', JBool False)]),
                (js ''addons'',
                   JObj [(js ''foo'',
                          JObj [(js ''platform'', JStr (js ''amo'')), (js ''id'', JStr (js ''x''))])]),
                (js ''brands'', JObj []),
                (js ''license'', defaultLicenseConfig)])
   \<and> fst (resolve (js ''{"addons":{"foo":{"platform":"amo","id":"x"}}}'')
         (initial (js ''/project/gluon.json'') None)) =
       Return (JObj [(js ''name'', JStr (js ''Unknown gluon build'')),
                (js ''vendor'', JStr (js ''Unknown'')),
                (js ''appId'', JStr (js ''unknown.appid'')),
                (js ''binaryName'', JStr (js ''firefox'')),
                (js ''version'', JObj [(js ''product'', JStr (js ''firefox''))]),
                (js ''buildOptions'',
                   JObj [(js ''generateBranding'', JBool True),
                         (js ''windowsUseSymbolicLinks'', JBool False)]),
                (js ''addons'',
                   JObj [(js ''foo'',
                          JObj [(js ''platform'', JStr (js ''amo'')), (js ''id'', JStr (js ''x''))])]),
                (js ''brands'', JObj []),
                (js ''license'', defaultLicenseConfig)])
   \<and> JSON_parse (js ''{'') = Inl SyntaxError
   \<and> fst (resolve (js ''{'') (initial (js ''/project/gluon.json'') None)) = Exit 1\<close>
proof -
  let ?t = \<open>js ''{"addons":{"foo":{"platform":"amo","id":"x"}}}''\<close>
  let ?cfg = "JObj [(js ''name'', JStr (js ''Unknown gluon build'')),
                (js ''vendor'', JStr (js ''Unknown'')),
                (js ''appId'', JStr (js ''unknown.appid'')),
                (js ''binaryName'', JStr (js ''firefox'')),
                (js ''version'', JObj [(js ''product'', JStr (js ''firefox''))]),
                (js ''buildOptions'',
                   JObj [(js ''generateBranding'', JBool True),
                         (js ''windowsUseSymbolicLinks'', JBool False)]),
                (js ''addons'',
                   JObj [(js ''foo'',
                          JObj [(js ''platform'', JStr (js ''amo'')), (js ''id'', JStr (js ''x''))])]),
                (js ''brands'', JObj []),
                (js ''license'', defaultLicenseConfig)]"
  have 1: "merged_record ?t = Some ?cfg"
    by code_simp
  have 2: "product_of ?cfg = Some (JStr (js ''firefox''))"
    "Array_includes validProducts (JStr (js ''firefox''))"
    by code_simp+
  have 3: "\<forall>(k, a) \<in> set (addons_of ?cfg). addon_ok a"
    by code_simp
  have 4: "JSON_parse (js ''{'') = Inl SyntaxError"
    by code_simp
  from resolution_outcomes [of ?t "initial (js ''/project/gluon.json'') None" 1 ?cfg TypeError] 1 2 3
  have "fst (resolve ?t (initial (js ''/project/gluon.json'') None)) = Return ?cfg"
    by blast
  moreover
  from resolution_outcomes [of "js ''{''" "initial (js ''/project/gluon.json'') None" 1 JNull TypeError] 4
  have "fst (resolve (js ''{'') (initial (js ''/project/gluon.json'') None)) = Exit 1"
    by blast
  ultimately show ?thesis
    using 1 4 by blast
qed

text \<open>
  C1 as stated fails: the text \<^verbatim>\<open>{"addons":{"foo":null}}\<close> is valid JSON and the product of
  its merged record is \<^verbatim>\<open>firefox\<close>, but reading \<^verbatim>\<open>id\<close> of the addon \<^verbatim>\<open>null\<close> throws a
  \<^verbatim>\<open>TypeError\<close>: the process is not ended with \<^verbatim>\<open>process.exit(1)\<close> and no Config is
  returned.
\<close>

theorem resolution_outcomes_counterexample:
  \<open>JSON_parse (js ''{"addons":{"foo":null}}'') = Inr (JObj [(js ''addons'', JObj [(js ''foo'', JNull)])])
   \<and> map_option product_of (merged_record (js ''{"addons":{"foo":null}}'')) =
       Some (Some (JStr (js ''firefox'')))
   \<and> Array_includes validProducts (JStr (js ''firefox''))
   \<and> fst (resolve (js ''{"addons":{"foo":null}}'') (initial (js ''/project/gluon.json'') None)) =
       Throw TypeError
   \<and> fst (getConfig (setMockRawConfig (js ''{"addons":{"foo":null}}'')
         (initial (js ''/project/gluon.json'') None))) = Throw TypeError\<close>
  by code_simp

subsection \<open>Saving and resolving again\<close>

text \<open>
  C6, amended. Let the resolution of a text return a Config in which no number is an
  infinity (a literal beyond the range of the doubles) or a negative zero. Then
  \<^verbatim>\<open>JSON.stringify(config, null, 2)\<close> gives a text, \<^verbatim>\<open>saveConfig\<close> leaves that text in the
  file, and the resolution of that text returns the same Config: the parser reads every
  value back from its serialisation, and merging the defaults into a record that already
  has them changes nothing.
\<close>

theorem round_trip_exact:
  assumes "fst (resolve t s) = Return cfg" and "exact cfg"
  shows "\<exists>text. JSON_stringify cfg = Some text
           \<and> configFile (snd (saveConfig cfg s1)) = Some text
           \<and> fst (resolve text s2) = Return cfg"
proof -
  from assms(1) resolve_cases [of t s] obtain doc p where doc: "JSON_parse t = Inr doc"
    and m: "merged_record t = Some cfg" and p: "product_of cfg = Some p"
    and ok: "Array_includes validProducts p" "\<forall>(k, a) \<in> set (addons_of cfg). addon_ok a"
    by (auto split: sum.splits option.splits if_splits)
  from m doc have merge: "merge_defaults doc = Inr cfg"
    by (auto simp: merged_record_def split: sum.splits)
  from doc have "decoded doc"
    by (rule JSON_parse_decoded)
  from decoded_merge_defaults [OF this merge] have "decoded cfg" .
  from JSON_round_trip [OF this assms(2)] obtain str where
    saved: "JSON_stringify cfg = Some str" "JSON_parse str = Inr cfg"
    by blast
  from merge have "cfg \<noteq> JNull" "cfg \<noteq> JUndefined"
    by (auto simp: merge_defaults_def Let_def split: sum.splits)
  from Get_Inr [OF this] obtain b where "Get cfg (js ''binaryName'') = Inr b"
    by blast
  with saved(2) merge_defaults_idem [OF \<open>decoded doc\<close> merge] have "merged_record str = Some cfg"
    by (simp add: merged_record_def)
  with saved(2) p ok resolve_cases [of str s2] have "fst (resolve str s2) = Return cfg"
    by simp
  with saved(1) show ?thesis
    by (simp add: saveConfig_def emit_def)
qed

text \<open>
  Witness for C6: the document \<^verbatim>\<open>{"name":"x","n":-1.5e-7}\<close>, whose number is written
  \<^verbatim>\<open>-1.5e-7\<close>.
\<close>

theorem round_trip_exact_witness:
  \<open>fst (resolve (js ''{"name":"x","n":-1.5e-7}'') (initial (js ''/project/gluon.json'') None)) =
     Return (JObj (obj_set (obj_set (own_props defaultConfig) (js ''name'') (JStr (js ''x'')))
                     (js ''n'') (JNum (Finite True 5666839779443574 (- 75)))))
   \<and> exact (JObj (obj_set (obj_set (own_props defaultConfig) (js ''name'') (JStr (js ''x'')))
                     (js ''n'') (JNum (Finite True 5666839779443574 (- 75)))))
   \<and> (\<exists>text.
         JSON_stringify (JObj (obj_set (obj_set (own_props defaultConfig) (js ''name'') (JStr (js ''x'')))
                                 (js ''n'') (JNum (Finite True 5666839779443574 (- 75))))) = Some text
       \<and> configFile (snd (saveConfig
             (JObj (obj_set (obj_set (own_props defaultConfig) (js ''name'') (JStr (js ''x'')))
                      (js ''n'') (JNum (Finite True 5666839779443574 (- 75)))))
             (initial (js ''/project/gluon.json'') None))) = Some text
       \<and> fst (resolve text (initial (js ''/project/gluon.json'') None)) =
           Return (JObj (obj_set (obj_set (own_props defaultConfig) (js ''name'') (JStr (js ''x'')))
                           (js ''n'') (JNum (Finite True 5666839779443574 (- 75))))))\<close>
proof -
  have 1: \<open>fst (resolve (js ''{"name":"x","n":-1.5e-7}'') (initial (js ''/project/gluon.json'') None)) =
     Return (JObj (obj_set (obj_set (own_props defaultConfig) (js ''name'') (JStr (js ''x'')))
                     (js ''n'') (JNum (Finite True 5666839779443574 (- 75)))))\<close>
    by code_simp
  have 2: "exact (JObj (obj_set (obj_set (own_props defaultConfig) (js ''name'') (JStr (js ''x'')))
                     (js ''n'') (JNum (Finite True 5666839779443574 (- 75)))))"
    by code_simp
  from round_trip_exact [OF 1 2, of "initial (js ''/project/gluon.json'') None"
      "initial (js ''/project/gluon.json'') None"] 1 2
  show ?thesis
    by (intro conjI)
qed

text \<open>
  C6 as stated fails: the document \<^verbatim>\<open>{"name":1e309}\<close> resolves to a Config whose \<^verbatim>\<open>name\<close>
  is \<^verbatim>\<open>Infinity\<close>; \<^verbatim>\<open>saveConfig\<close> writes it as \<^verbatim>\<open>null\<close>, and resolving the file again gives
  a Config whose \<^verbatim>\<open>name\<close> is \<^verbatim>\<open>null\<close>.
\<close>

theorem round_trip_counterexample:
  \<open>fst (getConfig (initial (js ''/project/gluon.json'') (Some (js ''{"name":1e309}'')))) =
     Return (JObj (obj_set (own_props defaultConfig) (js ''name'') (JNum (Infinity False))))
   \<and> fst (saveConfig (JObj (obj_set (own_props defaultConfig) (js ''name'') (JNum (Infinity False))))
            (initial (js ''/project/gluon.json'') (Some (js ''{"name":1e309}'')))) = Return ()
   \<and> fst (getConfig (snd (saveConfig
            (JObj (obj_set (own_props defaultConfig) (js ''name'') (JNum (Infinity False))))
            (initial (js ''/project/gluon.json'') (Some (js ''{"name":1e309}'')))))) =
       Return (JObj (obj_set (own_props defaultConfig) (js ''name'') JNull))
   \<and> JObj (obj_set (own_props defaultConfig) (js ''name'') JNull) \<noteq>
       JObj (obj_set (own_props defaultConfig) (js ''name'') (JNum (Infinity False)))\<close>
  by code_simp

end
